theory Spec2Isabelle
  imports Complex_Main "HOL-Library.Word" "HOL-Library.Multiset"
begin

section \<open>Strings: the pieces of Python that \<open>get_normalized_name\<close> uses\<close>

text \<open>
  File names are modelled as ASCII strings. \<open>is_space\<close> is the set of ASCII characters
  for which Python's \<open>str.isspace\<close> holds; the same set is what \<open>\s\<close> matches in a
  \<open>str\<close> pattern and what \<open>str.strip()\<close> removes: tab, line feed, vertical tab, form
  feed, carriage return, the four separators 0x1C..0x1F, and the blank.
\<close>

definition is_space :: "char \<Rightarrow> bool" where
  "is_space c \<longleftrightarrow>
     c \<in> set [CHR 0x09, CHR 0x0A, CHR 0x0B, CHR 0x0C, CHR 0x0D,
              CHR 0x1C, CHR 0x1D, CHR 0x1E, CHR 0x1F, CHR '' '']"

text \<open>\<open>\d\<close> on ASCII text.\<close>

definition is_digit :: "char \<Rightarrow> bool" where
  "is_digit c \<longleftrightarrow> c \<in> set ''0123456789''"

text \<open>\<open>str.lower()\<close> on ASCII text: the 26 capital letters are mapped, the rest is kept.\<close>

definition lower_char :: "char \<Rightarrow> char" where
  "lower_char c =
     (case map_of (zip ''ABCDEFGHIJKLMNOPQRSTUVWXYZ'' ''abcdefghijklmnopqrstuvwxyz'') c of
        Some l \<Rightarrow> l
      | None \<Rightarrow> c)"

definition lower :: "string \<Rightarrow> string" where
  "lower s = map lower_char s"

text \<open>\<open>str.strip()\<close> without argument.\<close>

definition strip :: "string \<Rightarrow> string" where
  "strip s = rev (dropWhile is_space (rev (dropWhile is_space s)))"

text \<open>
  \<open>str.rfind(ch)\<close> for a single character: the index of the last occurrence, or \<open>-1\<close>.
\<close>

fun rfind_from :: "char \<Rightarrow> string \<Rightarrow> int \<Rightarrow> int \<Rightarrow> int" where
  "rfind_from ch [] i found = found"
| "rfind_from ch (c # cs) i found = rfind_from ch cs (i + 1) (if c = ch then i else found)"

definition rfind :: "string \<Rightarrow> char \<Rightarrow> int" where
  "rfind p ch = rfind_from ch p 0 (-1)"

text \<open>
  \<open>os.path.splitext\<close> (the POSIX flavour: separator \<open>/\<close>, no alternative separator,
  extension separator \<open>.\<close>). The extension starts at the last dot, provided that dot
  comes after the last separator and is preceded, within the last component, by some
  character other than a dot; otherwise the extension is empty.
\<close>

definition splitext :: "string \<Rightarrow> string \<times> string" where
  "splitext p =
     (let sepIndex = rfind p (CHR ''/'');
          dotIndex = rfind p (CHR ''.'')
      in if dotIndex > sepIndex \<and>
            list_ex (\<lambda>c. c \<noteq> CHR ''.'')
              (take (nat (dotIndex - (sepIndex + 1))) (drop (nat (sepIndex + 1)) p))
         then (take (nat dotIndex) p, drop (nat dotIndex) p)
         else (p, []))"

text \<open>
  \<open>re.sub(r'^(copy of\s+)', '', basename)\<close>. Without the MULTILINE flag \<open>^\<close> matches at
  index 0 only, so there is at most one match: the seven characters \<open>copy of\<close> followed
  by one or more white-space characters, all of them (the quantifier is greedy and
  nothing follows it).
\<close>

definition sub_copy_of :: "string \<Rightarrow> string" where
  "sub_copy_of basename =
     (if take 7 basename = ''copy of'' \<and> takeWhile is_space (drop 7 basename) \<noteq> []
      then dropWhile is_space (drop 7 basename)
      else basename)"

text \<open>
  \<open>re.sub(r'\s*\(\d+\)\s*$', '', basename)\<close>. The pattern ends in \<open>\s*$\<close>, and \<open>$\<close>
  holds at the end of the string, so a match always runs to the end of the string
  (greedy \<open>\s*\<close> also takes a final line feed). \<open>match_paren_suffix\<close> says that a whole
  string is white space, an opening parenthesis, one or more digits, a closing
  parenthesis, white space. \<open>sub_paren_suffix\<close> is the search of the regular expression
  engine: it tries the start positions from the left and cuts the string at the first
  one from which the rest matches.
\<close>

definition match_paren_suffix :: "string \<Rightarrow> bool" where
  "match_paren_suffix s =
     (case dropWhile is_space s of
        [] \<Rightarrow> False
      | c # s2 \<Rightarrow>
          c = CHR ''('' \<and> takeWhile is_digit s2 \<noteq> [] \<and>
          (case dropWhile is_digit s2 of
             [] \<Rightarrow> False
           | d # s4 \<Rightarrow> d = CHR '')'' \<and> list_all is_space s4))"

fun sub_paren_suffix :: "string \<Rightarrow> string" where
  "sub_paren_suffix [] = []"
| "sub_paren_suffix (c # cs) =
     (if match_paren_suffix (c # cs) then [] else c # sub_paren_suffix cs)"

definition get_normalized_name :: "string \<Rightarrow> string" where
  "get_normalized_name filename =
     (let (basename, ext) = splitext (lower filename);
          basename = sub_copy_of basename;
          basename = sub_paren_suffix basename
      in strip basename @ ext)"


section \<open>Exceptions, paths and the file system\<close>

text \<open>
  The exception classes the code raises or catches. \<open>PermissionError\<close>,
  \<open>FileNotFoundError\<close> and \<open>InterruptedError\<close> are subclasses of \<open>OSError\<close> in
  Python 3; \<open>PlainOSError\<close> stands for an \<open>OSError\<close> of no more specific class.
  \<open>ValueError\<close> is not an \<open>OSError\<close>; it is what \<open>os.stat\<close> and \<open>open\<close> raise for a path
  with a NUL character in it. Every class here is a subclass of \<open>Exception\<close>.
\<close>

datatype os_error = PermissionError | FileNotFoundError | InterruptedError | PlainOSError

datatype exn = OSError os_error | ValueError | RuntimeError

definition isinstance_OSError :: "exn \<Rightarrow> bool" where
  "isinstance_OSError e =
     (case e of OSError _ \<Rightarrow> True | ValueError \<Rightarrow> False | RuntimeError \<Rightarrow> False)"

definition isinstance_PermissionError :: "exn \<Rightarrow> bool" where
  "isinstance_PermissionError e \<longleftrightarrow> e = OSError PermissionError"

definition isinstance_InterruptedError :: "exn \<Rightarrow> bool" where
  "isinstance_InterruptedError e \<longleftrightarrow> e = OSError InterruptedError"

definition isinstance_Exception :: "exn \<Rightarrow> bool" where
  "isinstance_Exception e = True"

text \<open>
  A \<open>pathlib.Path\<close> of a file, kept as its two parts: \<open>parent\<close>, the directory the file
  is in, and \<open>name\<close>, the final component. \<open>os.walk\<close> yields a directory \<open>root\<close> and the
  names of the files directly inside it, and the code builds each path as
  \<open>Path(os.path.join(root, name))\<close>.
\<close>

record Path =
  parent :: string
  name :: string

definition os_path_join :: "string \<Rightarrow> string \<Rightarrow> Path" where
  "os_path_join root' nm = \<lparr>parent = root', name = nm\<rparr>"

text \<open>
  The strings of a path are lists of 8-bit characters: the bytes the operating system
  is given. The one condition it puts on them is that none is NUL; no file has a path
  with a NUL character.
\<close>

definition has_nul :: "Path \<Rightarrow> bool" where
  "has_nul p \<longleftrightarrow> CHR 0x00 \<in> set (parent p) \<or> CHR 0x00 \<in> set (name p)"

text \<open>
  The file system as the scan sees it. A file has its bytes and, for each of the three
  operations the code performs on it, the \<open>OSError\<close> that operation raises, if it does:
  \<open>stat_error\<close> for \<open>os.path.getsize\<close>, \<open>open_error\<close> for \<open>open(path, 'rb')\<close>,
  \<open>read_error\<close> for \<open>f.read\<close>. A file system is a map from paths to files that has
  nothing at a path with a NUL character; \<open>file_at fs p\<close> is the file at \<open>p\<close>, if there
  is one. The file system does not change during a scan.
\<close>

type_synonym bytes = "8 word list"

record fs_file =
  content :: bytes
  stat_error :: "os_error option"
  open_error :: "os_error option"
  read_error :: "os_error option"

typedef filesystem = "{m :: Path \<Rightarrow> fs_file option. \<forall>p. has_nul p \<longrightarrow> m p = None}"
  morphisms file_at Abs_filesystem
  by (rule exI[of _ "\<lambda>p. None"]) simp

setup_lifting type_definition_filesystem

text \<open>
  \<open>os.path.getsize\<close> and \<open>open(path, 'rb')\<close>. Both turn the path into the form the
  operating system takes before they ask it anything, and raise \<open>ValueError\<close> there
  if the path has a NUL character.
\<close>

definition os_path_getsize :: "filesystem \<Rightarrow> Path \<Rightarrow> exn + nat" where
  "os_path_getsize fs p =
     (if has_nul p then Inl ValueError
      else
        (case file_at fs p of
           None \<Rightarrow> Inl (OSError FileNotFoundError)
         | Some f \<Rightarrow>
             (case stat_error f of
                Some e \<Rightarrow> Inl (OSError e)
              | None \<Rightarrow> Inr (length (content f)))))"

definition open_rb :: "filesystem \<Rightarrow> Path \<Rightarrow> exn + fs_file" where
  "open_rb fs p =
     (if has_nul p then Inl ValueError
      else
        (case file_at fs p of
           None \<Rightarrow> Inl (OSError FileNotFoundError)
         | Some f \<Rightarrow>
             (case open_error f of
                Some e \<Rightarrow> Inl (OSError e)
              | None \<Rightarrow> Inr f)))"

text \<open>\<open>f.read(n)\<close> on a file opened for binary reading, with the read position \<open>pos\<close>.\<close>

definition f_read :: "fs_file \<Rightarrow> nat \<Rightarrow> nat \<Rightarrow> exn + bytes" where
  "f_read f pos n =
     (case read_error f of
        Some e \<Rightarrow> Inl (OSError e)
      | None \<Rightarrow> Inr (take n (drop pos (content f))))"

section \<open>FileInfo\<close>

text \<open>
  The three private fields \<open>_size\<close>, \<open>_quick_hash\<close> and \<open>_full_hash\<close> are
  \<open>cached_size\<close>, \<open>cached_quick_hash\<close> and \<open>cached_full_hash\<close>; \<open>None\<close> is Python's
  \<open>None\<close>. An accessor returns its value together with the object as it has left it, or
  the exception that leaves it. The call of \<open>logger.error\<close> in each handler writes to
  the log and is taken to return.

  \<open>hashlib.md5\<close> is not part of the repository. An MD5 object is modelled by the bytes
  it has been fed (\<open>update\<close> appends), and \<open>hexdigest\<close> is a parameter \<open>H\<close> of the model,
  applied to those bytes.
\<close>

record FileInfo =
  path :: Path
  cached_size :: "nat option"
  cached_quick_hash :: "string option"
  cached_full_hash :: "string option"

definition CHUNK_SIZE :: nat where
  "CHUNK_SIZE = 8192"

definition MAX_QUICK_READ_SIZE :: nat where
  "MAX_QUICK_READ_SIZE = 1024 * 1024"

definition FileInfo_init :: "Path \<Rightarrow> FileInfo" where
  "FileInfo_init p =
     \<lparr>path = p, cached_size = None, cached_quick_hash = None, cached_full_hash = None\<rparr>"

text \<open>The clause \<open>except (OSError, PermissionError)\<close>.\<close>

definition except_OSError_PermissionError :: "exn \<Rightarrow> bool" where
  "except_OSError_PermissionError e \<longleftrightarrow> isinstance_OSError e \<or> isinstance_PermissionError e"

definition FileInfo_size :: "filesystem \<Rightarrow> FileInfo \<Rightarrow> exn + (nat \<times> FileInfo)" where
  "FileInfo_size fs self =
     (case cached_size self of
        Some n \<Rightarrow> Inr (n, self)
      | None \<Rightarrow>
          (case os_path_getsize fs (path self) of
             Inr n \<Rightarrow> Inr (n, self\<lparr>cached_size := Some n\<rparr>)
           | Inl e \<Rightarrow>
               if except_OSError_PermissionError e
               then Inr (0, self\<lparr>cached_size := Some 0\<rparr>)
               else Inl e))"

text \<open>
  The loop of \<open>quick_hash\<close>: \<open>md5\<close> is the MD5 object, \<open>bytes_read\<close> the counter, which
  is also the read position of \<open>f\<close>.
\<close>

function quick_hash_loop :: "fs_file \<Rightarrow> bytes \<Rightarrow> nat \<Rightarrow> exn + bytes" where
  "quick_hash_loop f md5 bytes_read =
     (if bytes_read < MAX_QUICK_READ_SIZE then
        (case f_read f bytes_read (min CHUNK_SIZE (MAX_QUICK_READ_SIZE - bytes_read)) of
           Inl e \<Rightarrow> Inl e
         | Inr chunk \<Rightarrow>
             if chunk = [] then Inr md5
             else quick_hash_loop f (md5 @ chunk) (bytes_read + length chunk))
      else Inr md5)"
  by pat_completeness auto
termination
  by (relation "measure (\<lambda>(f, md5, bytes_read). MAX_QUICK_READ_SIZE - bytes_read)")
     (auto intro!: diff_less_mono2)

definition FileInfo_quick_hash ::
  "(bytes \<Rightarrow> string) \<Rightarrow> filesystem \<Rightarrow> FileInfo \<Rightarrow> exn + (string \<times> FileInfo)" where
  "FileInfo_quick_hash H fs self =
     (case cached_quick_hash self of
        Some h \<Rightarrow> Inr (h, self)
      | None \<Rightarrow>
          (case (case open_rb fs (path self) of
                   Inl e \<Rightarrow> Inl e
                 | Inr f \<Rightarrow> quick_hash_loop f [] 0) of
             Inr md5 \<Rightarrow> Inr (H md5, self\<lparr>cached_quick_hash := Some (H md5)\<rparr>)
           | Inl e \<Rightarrow>
               if except_OSError_PermissionError e
               then Inr ([], self\<lparr>cached_quick_hash := Some []\<rparr>)
               else Inl e))"

text \<open>The loop of \<open>full_hash\<close>: \<open>while chunk := f.read(self.CHUNK_SIZE)\<close>.\<close>

function full_hash_loop :: "fs_file \<Rightarrow> bytes \<Rightarrow> nat \<Rightarrow> exn + bytes" where
  "full_hash_loop f md5 pos =
     (case f_read f pos CHUNK_SIZE of
        Inl e \<Rightarrow> Inl e
      | Inr chunk \<Rightarrow>
          if chunk = [] then Inr md5
          else full_hash_loop f (md5 @ chunk) (pos + length chunk))"
  by pat_completeness auto
termination
  by (relation "measure (\<lambda>(f, md5, pos). length (content f) - pos)")
     (auto simp: f_read_def split: option.splits)

definition FileInfo_full_hash ::
  "(bytes \<Rightarrow> string) \<Rightarrow> filesystem \<Rightarrow> FileInfo \<Rightarrow> exn + (string \<times> FileInfo)" where
  "FileInfo_full_hash H fs self =
     (case cached_full_hash self of
        Some h \<Rightarrow> Inr (h, self)
      | None \<Rightarrow>
          (case (case open_rb fs (path self) of
                   Inl e \<Rightarrow> Inl e
                 | Inr f \<Rightarrow> full_hash_loop f [] 0) of
             Inr md5 \<Rightarrow> Inr (H md5, self\<lparr>cached_full_hash := Some (H md5)\<rparr>)
           | Inl e \<Rightarrow>
               if except_OSError_PermissionError e
               then Inr ([], self\<lparr>cached_full_hash := Some []\<rparr>)
               else Inl e))"


section \<open>The progress value of phase 1\<close>

text \<open>
  \<open>int((processed_files / total_files) * 50)\<close> on Python's numbers. The quotient of two
  integers is the double nearest to the exact quotient; the product with 50 is the
  double nearest to the exact product; \<open>int\<close> cuts the fraction off. \<open>scan_directory\<close>
  computes it only when \<open>total_files\<close> is positive.

  \<open>float_of x\<close> is the double nearest to a rational \<open>x\<close> that is not negative and below
  \<open>2 ^ 1024\<close>, with ties going to the even significand: a double has 53 significant
  bits, and its exponent is at least \<open>- 1022\<close>, so that the doubles around \<open>x\<close> are the
  multiples of \<open>2 powi (max (floor_log2 x) (- 1022) - 52)\<close>. \<open>floor_log2 x\<close> is the
  exponent of the power of two at or below a positive \<open>x\<close>, computed from the lengths of
  numerator and denominator in bits (\<open>bit_length\<close>).
\<close>

function bit_length :: "int \<Rightarrow> int" where
  "bit_length n = (if n \<le> 0 then 0 else 1 + bit_length (n div 2))"
  by pat_completeness auto
termination
  by (relation "measure nat") auto

definition floor_log2 :: "rat \<Rightarrow> int" where
  "floor_log2 x =
     (let (a, b) = quotient_of x;
          d = bit_length a - bit_length b
      in if 2 powi d \<le> x then d else d - 1)"

definition round_half_even :: "rat \<Rightarrow> int" where
  "round_half_even q =
     (let f = \<lfloor>q\<rfloor>; r = q - of_int f
      in if r < 1 / 2 then f
         else if 1 / 2 < r then f + 1
         else if even f then f else f + 1)"

definition float_of :: "rat \<Rightarrow> rat" where
  "float_of x =
     (if x \<le> 0 then 0
      else (let u = 2 powi (max (floor_log2 x) (- 1022) - 52)
            in of_int (round_half_even (x / u)) * u))"

definition progress_percent :: "nat \<Rightarrow> nat \<Rightarrow> nat" where
  "progress_percent processed_files total_files =
     nat \<lfloor>float_of (float_of (of_nat processed_files / of_nat total_files) * 50)\<rfloor>"

section \<open>The catalogue: \<open>scan_directory\<close>\<close>

text \<open>
  A \<open>defaultdict(list)\<close> is an association list in insertion order, which is the order
  in which \<open>items()\<close> iterates. \<open>defaultdict_append k v d\<close> is \<open>d[k].append(v)\<close>.
\<close>

fun defaultdict_append :: "'k \<Rightarrow> 'v \<Rightarrow> ('k \<times> 'v list) list \<Rightarrow> ('k \<times> 'v list) list" where
  "defaultdict_append k v [] = [(k, [v])]"
| "defaultdict_append k v ((k', vs) # d) =
     (if k = k' then (k', vs @ [v]) # d else (k', vs) # defaultdict_append k v d)"

text \<open>
  A progress callback is called with a value and acts on a state of the caller; it
  returns normally (\<open>None\<close>) or raises. The fields of \<open>scan_state\<close> are the local
  variables of \<open>scan_directory\<close> that its loop changes, and the caller's state.
\<close>

type_synonym 's callback = "nat \<Rightarrow> 's \<Rightarrow> exn option \<times> 's"

record 's scan_state =
  sc_files_by_size :: "(nat \<times> FileInfo list) list"
  sc_files_by_directory :: "(string \<times> FileInfo list) list"
  sc_processed_files :: nat
  sc_callback_state :: 's

text \<open>
  The body of the inner loop of \<open>scan_directory\<close>, for the file \<open>nm\<close> of the directory
  \<open>root'\<close>. The parameter \<open>pct\<close> stands for the expression
  \<open>int((processed_files / total_files) * 50)\<close>; the scan of the code is the scan with
  \<open>progress_percent\<close> for \<open>pct\<close>. Whatever is raised inside the body is caught by
  \<open>except Exception\<close>, and the loop goes on with what the body has done up to there:
  when \<open>file_info.size\<close> raises, the file is not counted in \<open>processed_files\<close>.
\<close>

definition scan_file ::
  "filesystem \<Rightarrow> (nat \<Rightarrow> nat \<Rightarrow> nat) \<Rightarrow> 's callback option \<Rightarrow> nat \<Rightarrow> nat \<Rightarrow>
   string \<Rightarrow> string \<Rightarrow> 's scan_state \<Rightarrow> 's scan_state" where
  "scan_file fs pct progress_callback total_files chunk_size root' nm st =
     (case FileInfo_size fs (FileInfo_init (os_path_join root' nm)) of
        Inl e \<Rightarrow> st
      | Inr (sz, file_info) \<Rightarrow>
          (let st1 = (if sz > 0
                      then st\<lparr>sc_files_by_size :=
                                defaultdict_append sz file_info (sc_files_by_size st),
                              sc_files_by_directory :=
                                defaultdict_append root' file_info (sc_files_by_directory st)\<rparr>
                      else st);
               st2 = st1\<lparr>sc_processed_files := sc_processed_files st1 + 1\<rparr>
           in case progress_callback of
                None \<Rightarrow> st2
              | Some cb \<Rightarrow>
                  if sc_processed_files st2 mod chunk_size = 0
                  then (case cb (pct (sc_processed_files st2) total_files)
                               (sc_callback_state st2) of
                          (None, s') \<Rightarrow> st2\<lparr>sc_callback_state := s'\<rparr>
                        | (Some e, s') \<Rightarrow> st2\<lparr>sc_callback_state := s'\<rparr>)
                  else st2))"

text \<open>
  \<open>walk\<close> is what \<open>os.walk(directory)\<close> yields: each directory of the tree with the
  names of the files directly inside it. The function returns the two indices and the
  state of the callback's owner.
\<close>

definition scan_directory ::
  "filesystem \<Rightarrow> (nat \<Rightarrow> nat \<Rightarrow> nat) \<Rightarrow> (string \<times> string list) list \<Rightarrow>
   's callback option \<Rightarrow> 's \<Rightarrow>
   (nat \<times> FileInfo list) list \<times> (string \<times> FileInfo list) list \<times> 's" where
  "scan_directory fs pct walk progress_callback s =
     (let total_files = sum_list (map (\<lambda>(root, files). length files) walk)
      in if total_files = 0 then ([], [], s)
         else
           (let chunk_size = max 1 (total_files div 100);
                st = fold (\<lambda>(root, files).
                             fold (scan_file fs pct progress_callback total_files chunk_size root)
                               files)
                       walk
                       \<lparr>sc_files_by_size = [], sc_files_by_directory = [],
                        sc_processed_files = 0, sc_callback_state = s\<rparr>
            in (sc_files_by_size st, sc_files_by_directory st, sc_callback_state st)))"

section \<open>Grouping: \<open>find_duplicates\<close>\<close>

text \<open>
  A duplicate group is the dictionary with the keys \<open>'paths'\<close>, \<open>'size'\<close> and
  \<open>'directory'\<close>.
\<close>

record DuplicateGroup =
  paths :: "Path list"
  size_bytes :: nat
  directory :: string

text \<open>The first inner loop: \<open>name_dict\<close> of the files of one directory.\<close>

definition name_dict_of :: "FileInfo list \<Rightarrow> (string \<times> FileInfo list) list" where
  "name_dict_of files =
     fold (\<lambda>file name_dict.
             defaultdict_append (get_normalized_name (name (path file))) file name_dict)
       files []"

text \<open>
  The loop that fills \<open>hash_dict\<close>. \<open>full_hash()\<close> changes the object it is called on;
  the object as changed is the one that goes into \<open>hash_dict\<close>.
\<close>

fun hash_dict_loop ::
  "(bytes \<Rightarrow> string) \<Rightarrow> filesystem \<Rightarrow> FileInfo list \<Rightarrow> (string \<times> FileInfo list) list \<Rightarrow>
   exn + (string \<times> FileInfo list) list" where
  "hash_dict_loop H fs [] hash_dict = Inr hash_dict"
| "hash_dict_loop H fs (file # similar_files) hash_dict =
     (case FileInfo_full_hash H fs file of
        Inl e \<Rightarrow> Inl e
      | Inr (file_hash, file') \<Rightarrow>
          hash_dict_loop H fs similar_files (defaultdict_append file_hash file' hash_dict))"

text \<open>The loop over \<open>hash_dict.items()\<close>.\<close>

fun groups_loop ::
  "filesystem \<Rightarrow> string \<Rightarrow> (string \<times> FileInfo list) list \<Rightarrow> DuplicateGroup list \<Rightarrow>
   exn + DuplicateGroup list" where
  "groups_loop fs dir [] duplicate_groups = Inr duplicate_groups"
| "groups_loop fs dir ((hash_value, duplicates) # hash_items) duplicate_groups =
     (if length duplicates > 1 then
        (case FileInfo_size fs (duplicates ! 0) of
           Inl e \<Rightarrow> Inl e
         | Inr (sz, first') \<Rightarrow>
             groups_loop fs dir hash_items
               (duplicate_groups @
                [\<lparr>paths = map path duplicates, size_bytes = sz, directory = dir\<rparr>]))
      else groups_loop fs dir hash_items duplicate_groups)"

text \<open>The loop over \<open>name_dict.items()\<close>.\<close>

fun names_loop ::
  "(bytes \<Rightarrow> string) \<Rightarrow> filesystem \<Rightarrow> string \<Rightarrow> (string \<times> FileInfo list) list \<Rightarrow>
   DuplicateGroup list \<Rightarrow> exn + DuplicateGroup list" where
  "names_loop H fs dir [] duplicate_groups = Inr duplicate_groups"
| "names_loop H fs dir ((normalized_name, similar_files) # name_items) duplicate_groups =
     (if length similar_files > 1 then
        (case hash_dict_loop H fs similar_files [] of
           Inl e \<Rightarrow> Inl e
         | Inr hash_dict \<Rightarrow>
             (case groups_loop fs dir hash_dict duplicate_groups of
                Inl e \<Rightarrow> Inl e
              | Inr duplicate_groups' \<Rightarrow> names_loop H fs dir name_items duplicate_groups'))
      else names_loop H fs dir name_items duplicate_groups)"

text \<open>The loop over \<open>files_by_directory.items()\<close>.\<close>

fun directories_loop ::
  "(bytes \<Rightarrow> string) \<Rightarrow> filesystem \<Rightarrow> (string \<times> FileInfo list) list \<Rightarrow>
   DuplicateGroup list \<Rightarrow> exn + DuplicateGroup list" where
  "directories_loop H fs [] duplicate_groups = Inr duplicate_groups"
| "directories_loop H fs ((dir, files) # dir_items) duplicate_groups =
     (case names_loop H fs dir (name_dict_of files) duplicate_groups of
        Inl e \<Rightarrow> Inl e
      | Inr duplicate_groups' \<Rightarrow> directories_loop H fs dir_items duplicate_groups')"

text \<open>
  \<open>find_duplicates\<close> takes \<open>files_by_size\<close> and \<open>progress_callback\<close> and uses neither.
\<close>

definition find_duplicates ::
  "(bytes \<Rightarrow> string) \<Rightarrow> filesystem \<Rightarrow> (nat \<times> FileInfo list) list \<Rightarrow>
   (string \<times> FileInfo list) list \<Rightarrow> 's callback option \<Rightarrow> exn + DuplicateGroup list" where
  "find_duplicates H fs files_by_size files_by_directory progress_callback =
     directories_loop H fs files_by_directory []"

section \<open>The scan: \<open>duplicate_file_finder\<close>\<close>

text \<open>
  The inner function \<open>safe_progress_callback\<close>: it calls the callback if there is one
  and catches every \<open>Exception\<close> the callback raises.
\<close>

definition safe_progress_callback :: "'s callback option \<Rightarrow> 's callback" where
  "safe_progress_callback progress_callback v s =
     (case progress_callback of
        None \<Rightarrow> (None, s)
      | Some cb \<Rightarrow>
          (case cb v s of
             (None, s') \<Rightarrow> (None, s')
           | (Some e, s') \<Rightarrow> if isinstance_Exception e then (None, s') else (Some e, s')))"

text \<open>
  The result is the list of groups or the exception that \<open>except Exception\<close> logs and
  raises again, together with the state of the callback's owner.
\<close>

definition duplicate_file_finder ::
  "(bytes \<Rightarrow> string) \<Rightarrow> filesystem \<Rightarrow> (nat \<Rightarrow> nat \<Rightarrow> nat) \<Rightarrow> (string \<times> string list) list \<Rightarrow>
   's callback option \<Rightarrow> 's \<Rightarrow> (exn + DuplicateGroup list) \<times> 's" where
  "duplicate_file_finder H fs pct walk progress_callback s =
     (let safe = safe_progress_callback progress_callback
      in case safe 0 s of
           (Some e, s1) \<Rightarrow> (Inl e, s1)
         | (None, s1) \<Rightarrow>
             (case scan_directory fs pct walk (Some safe) s1 of
                (files_by_size, files_by_directory, s2) \<Rightarrow>
                  (case safe 50 s2 of
                     (Some e, s3) \<Rightarrow> (Inl e, s3)
                   | (None, s3) \<Rightarrow>
                       (find_duplicates H fs files_by_size files_by_directory (Some safe),
                        s3))))"


section \<open>The worker thread and the slots of the window\<close>

text \<open>
  The signals of \<open>DuplicateFinderThread\<close>. The thread's state is the list of signals it
  has emitted, in order, and what it sees of its flag \<open>_is_running\<close>. The flag is set to
  \<open>False\<close> by \<open>stop()\<close>, called from the window's thread at any moment; the worker only
  ever meets it where it reads it. \<open>flag_reads\<close> counts these reads, and
  \<open>stop_at = Some k\<close> says that \<open>stop()\<close> has been called when the flag is read for the
  \<open>k\<close>-th time (counting from 0), \<open>None\<close> that it is never called. Emitting a signal is
  taken not to fail.
\<close>

datatype signal =
  progress_updated nat
| duplicates_found "DuplicateGroup list"
| error_occurred exn

record thread_state =
  stop_at :: "nat option"
  flag_reads :: nat
  emitted :: "signal list"

definition read_is_running :: "thread_state \<Rightarrow> bool \<times> thread_state" where
  "read_is_running t =
     ((case stop_at t of None \<Rightarrow> True | Some k \<Rightarrow> flag_reads t < k),
      t\<lparr>flag_reads := flag_reads t + 1\<rparr>)"

definition emit :: "signal \<Rightarrow> thread_state \<Rightarrow> thread_state" where
  "emit sig t = t\<lparr>emitted := emitted t @ [sig]\<rparr>"

text \<open>The function \<open>progress_callback\<close> inside \<open>run\<close>.\<close>

definition thread_progress_callback :: "thread_state callback" where
  "thread_progress_callback v t =
     (case read_is_running t of
        (False, t') \<Rightarrow> (Some (OSError InterruptedError), t')
      | (True, t') \<Rightarrow> (None, emit (progress_updated v) t'))"

text \<open>
  \<open>DuplicateFinderThread.run\<close>. \<open>dir_exists\<close> is \<open>os.path.exists(self.directory)\<close>. The
  \<open>finally\<close> clause clears the flag: every later read gives \<open>False\<close>.
\<close>

definition run ::
  "(bytes \<Rightarrow> string) \<Rightarrow> filesystem \<Rightarrow> (nat \<Rightarrow> nat \<Rightarrow> nat) \<Rightarrow> bool \<Rightarrow>
   (string \<times> string list) list \<Rightarrow> thread_state \<Rightarrow> thread_state" where
  "run H fs pct dir_exists walk t =
     (let (outcome, t') =
            (if \<not> dir_exists then (Some (OSError FileNotFoundError), t)
             else
               (case duplicate_file_finder H fs pct walk (Some thread_progress_callback) t of
                  (Inl e, t1) \<Rightarrow> (Some e, t1)
                | (Inr duplicates, t1) \<Rightarrow>
                    (case read_is_running t1 of
                       (True, t2) \<Rightarrow> (None, emit (duplicates_found duplicates) t2)
                     | (False, t2) \<Rightarrow> (None, t2))));
          t'' = (case outcome of
                   None \<Rightarrow> t'
                 | Some e \<Rightarrow>
                     if isinstance_InterruptedError e then emit (duplicates_found []) t'
                     else emit (duplicates_found []) (emit (error_occurred e) t'))
      in t''\<lparr>stop_at := Some 0\<rparr>)"

text \<open>
  \<open>display_duplicates\<close>, the slot connected to \<open>duplicates_found\<close>: it sets the progress
  bar to 100 and goes through the groups. Of its loop the model keeps the two counters;
  the widgets it fills are left out. \<open>group['size'] * (len(group['paths']) - 1)\<close> is
  computed on Python's integers.
\<close>

record display_state =
  current_group :: nat
  total_wasted_space :: int

definition wasted_space :: "DuplicateGroup \<Rightarrow> int" where
  "wasted_space g = int (size_bytes g) * (int (length (paths g)) - 1)"

definition display_group :: "DuplicateGroup \<Rightarrow> display_state \<Rightarrow> display_state" where
  "display_group g d =
     d\<lparr>total_wasted_space := total_wasted_space d + wasted_space g,
       current_group := current_group d + 1\<rparr>"

definition display_duplicates :: "DuplicateGroup list \<Rightarrow> nat \<times> display_state" where
  "display_duplicates duplicates =
     (100, fold display_group duplicates \<lparr>current_group = 0, total_wasted_space = 0\<rparr>)"

text \<open>
  The values the progress bar is set to by the slots connected to the three signals:
  \<open>update_duplicate_progress\<close>, \<open>display_duplicates\<close> and \<open>handle_duplicate_error\<close>.
\<close>

fun bar_values :: "signal \<Rightarrow> nat list" where
  "bar_values (progress_updated v) = [v]"
| "bar_values (duplicates_found duplicates) = [fst (display_duplicates duplicates)]"
| "bar_values (error_occurred e) = []"

section \<open>What the accessors compute\<close>

text \<open>
  The values the three accessors obtain from the file system when nothing is cached:
  the size of the file, or 0 when \<open>os.path.getsize\<close> fails; the digest of the content
  (of its first \<open>MAX_QUICK_READ_SIZE\<close> bytes for the quick digest), or the empty string
  when the file cannot be opened or read. \<open>accessed H fs self\<close> says that \<open>self\<close> is an
  object made by the constructor and then used through its accessors only, on the file
  system \<open>fs\<close>.
\<close>

definition stat_size :: "filesystem \<Rightarrow> Path \<Rightarrow> nat" where
  "stat_size fs p =
     (case file_at fs p of
        None \<Rightarrow> 0
      | Some f \<Rightarrow> if stat_error f = None then length (content f) else 0)"


definition full_digest :: "(bytes \<Rightarrow> string) \<Rightarrow> filesystem \<Rightarrow> Path \<Rightarrow> string" where
  "full_digest H fs p =
     (case file_at fs p of
        None \<Rightarrow> []
      | Some f \<Rightarrow> if open_error f = None \<and> read_error f = None then H (content f) else [])"

definition quick_digest :: "(bytes \<Rightarrow> string) \<Rightarrow> filesystem \<Rightarrow> Path \<Rightarrow> string" where
  "quick_digest H fs p =
     (case file_at fs p of
        None \<Rightarrow> []
      | Some f \<Rightarrow>
          if open_error f = None \<and> read_error f = None
          then H (take MAX_QUICK_READ_SIZE (content f)) else [])"

inductive accessed :: "(bytes \<Rightarrow> string) \<Rightarrow> filesystem \<Rightarrow> FileInfo \<Rightarrow> bool"
  for H :: "bytes \<Rightarrow> string" and fs :: filesystem where
  created: "accessed H fs (FileInfo_init p)"
| after_size: "accessed H fs self \<Longrightarrow> FileInfo_size fs self = Inr (n, self') \<Longrightarrow> accessed H fs self'"
| after_quick_hash:
    "accessed H fs self \<Longrightarrow> FileInfo_quick_hash H fs self = Inr (h, self') \<Longrightarrow> accessed H fs self'"
| after_full_hash:
    "accessed H fs self \<Longrightarrow> FileInfo_full_hash H fs self = Inr (h, self') \<Longrightarrow> accessed H fs self'"

section \<open>The scan as a function of the walk\<close>

text \<open>
  \<open>walk_paths\<close> lists the paths the scan builds, in the order in which it meets them.
  \<open>catalogued fs p\<close> is the FileInfo the catalogue holds for \<open>p\<close>: made by the
  constructor, with its size read. \<open>directory_index\<close> is \<open>files_by_directory\<close> as a
  function of those paths. \<open>counted_paths\<close> are the paths the loop counts in
  \<open>processed_files\<close>: those on which \<open>file_info.size\<close> does not raise.
  \<open>phase1_values pct total_files processed\<close> are the values \<open>scan_directory\<close> passes to
  its callback when it counts \<open>processed\<close> of \<open>total_files\<close> files, and \<open>scan_values\<close>
  those of a whole scan.
\<close>

definition walk_paths :: "(string \<times> string list) list \<Rightarrow> Path list" where
  "walk_paths walk = concat (map (\<lambda>(root', files). map (os_path_join root') files) walk)"

definition catalogued :: "filesystem \<Rightarrow> Path \<Rightarrow> FileInfo" where
  "catalogued fs p = (FileInfo_init p)\<lparr>cached_size := Some (stat_size fs p)\<rparr>"

definition directory_index :: "filesystem \<Rightarrow> Path list \<Rightarrow> (string \<times> FileInfo list) list" where
  "directory_index fs ps =
     fold (\<lambda>p d. if 0 < stat_size fs p
                  then defaultdict_append (parent p) (catalogued fs p) d else d)
       ps []"

definition counted_paths :: "(string \<times> string list) list \<Rightarrow> Path list" where
  "counted_paths walk = filter (\<lambda>p. \<not> has_nul p) (walk_paths walk)"

definition phase1_values :: "(nat \<Rightarrow> nat \<Rightarrow> nat) \<Rightarrow> nat \<Rightarrow> nat \<Rightarrow> nat list" where
  "phase1_values pct total_files processed =
     map (\<lambda>k. pct k total_files)
       (filter (\<lambda>k. k mod max 1 (total_files div 100) = 0) [1..<processed + 1])"

definition scan_values :: "(nat \<Rightarrow> nat \<Rightarrow> nat) \<Rightarrow> nat \<Rightarrow> nat \<Rightarrow> nat list" where
  "scan_values pct total_files processed = 0 # phase1_values pct total_files processed @ [50]"

text \<open>The values a scan of \<open>walk\<close> passes to its callback.\<close>

definition walk_values :: "(nat \<Rightarrow> nat \<Rightarrow> nat) \<Rightarrow> (string \<times> string list) list \<Rightarrow> nat list" where
  "walk_values pct walk =
     scan_values pct (length (walk_paths walk)) (length (counted_paths walk))"

text \<open>
  The grouping as a function of the catalogue: what \<open>size\<close> and \<open>full_hash()\<close> return
  for an object, the object after \<open>full_hash()\<close>, the \<open>hash_dict\<close> of one name bucket,
  and the groups of a \<open>hash_dict\<close>, of a directory and of the whole catalogue.
\<close>

definition size_value :: "filesystem \<Rightarrow> FileInfo \<Rightarrow> nat" where
  "size_value fs self =
     (case cached_size self of Some n \<Rightarrow> n | None \<Rightarrow> stat_size fs (path self))"

definition hash_value :: "(bytes \<Rightarrow> string) \<Rightarrow> filesystem \<Rightarrow> FileInfo \<Rightarrow> string" where
  "hash_value H fs self =
     (case cached_full_hash self of Some h \<Rightarrow> h | None \<Rightarrow> full_digest H fs (path self))"

definition hashed :: "(bytes \<Rightarrow> string) \<Rightarrow> filesystem \<Rightarrow> FileInfo \<Rightarrow> FileInfo" where
  "hashed H fs self = self\<lparr>cached_full_hash := Some (hash_value H fs self)\<rparr>"

definition hash_dict_of ::
  "(bytes \<Rightarrow> string) \<Rightarrow> filesystem \<Rightarrow> FileInfo list \<Rightarrow> (string \<times> FileInfo list) list" where
  "hash_dict_of H fs similar_files =
     fold (\<lambda>file. defaultdict_append (hash_value H fs file) (hashed H fs file)) similar_files []"

definition group_of :: "filesystem \<Rightarrow> string \<Rightarrow> FileInfo list \<Rightarrow> DuplicateGroup" where
  "group_of fs dir duplicates =
     \<lparr>paths = map path duplicates, size_bytes = size_value fs (duplicates ! 0), directory = dir\<rparr>"

definition groups_of_hash_dict ::
  "filesystem \<Rightarrow> string \<Rightarrow> (string \<times> FileInfo list) list \<Rightarrow> DuplicateGroup list" where
  "groups_of_hash_dict fs dir hash_dict =
     map (\<lambda>(hash_value, duplicates). group_of fs dir duplicates)
       (filter (\<lambda>(hash_value, duplicates). length duplicates > 1) hash_dict)"

definition groups_of_directory ::
  "(bytes \<Rightarrow> string) \<Rightarrow> filesystem \<Rightarrow> string \<Rightarrow> FileInfo list \<Rightarrow> DuplicateGroup list" where
  "groups_of_directory H fs dir files =
     concat (map (\<lambda>(normalized_name, similar_files).
                    if length similar_files > 1
                    then groups_of_hash_dict fs dir (hash_dict_of H fs similar_files)
                    else [])
               (name_dict_of files))"

definition all_groups ::
  "(bytes \<Rightarrow> string) \<Rightarrow> filesystem \<Rightarrow> (string \<times> FileInfo list) list \<Rightarrow> DuplicateGroup list" where
  "all_groups H fs files_by_directory =
     concat (map (\<lambda>(dir, files). groups_of_directory H fs dir files) files_by_directory)"

definition dict_values :: "('k \<times> 'v list) list \<Rightarrow> 'v list" where
  "dict_values d = concat (map snd d)"

section \<open>Example inputs\<close>

text \<open>
  A digest function for the examples: the hexadecimal text of the bytes themselves.
  It never gives two contents the same digest.
\<close>

definition hex_digit :: "nat \<Rightarrow> char" where
  "hex_digit n = ''0123456789abcdef'' ! n"

definition hex_of_bytes :: "bytes \<Rightarrow> string" where
  "hex_of_bytes bs =
     concat (map (\<lambda>b. [hex_digit (unat b div 16), hex_digit (unat b mod 16)]) bs)"

text \<open>
  A file that can be read, and a file that \<open>os.path.getsize\<close> can measure but \<open>open\<close>
  refuses with \<open>PermissionError\<close>.
\<close>

definition plain_file :: "bytes \<Rightarrow> fs_file" where
  "plain_file c = \<lparr>content = c, stat_error = None, open_error = None, read_error = None\<rparr>"

definition locked_file :: "bytes \<Rightarrow> fs_file" where
  "locked_file c =
     \<lparr>content = c, stat_error = None, open_error = Some PermissionError, read_error = None\<rparr>"

text \<open>
  The directory \<open>/d\<close> with \<open>report.pdf\<close> and \<open>copy of report.pdf\<close>, both holding the one
  byte \<open>X\<close>; and the directory \<open>/d\<close> with \<open>a.txt\<close> of three bytes and \<open>a (1).txt\<close> of five
  other bytes, neither of which can be opened.
\<close>

lift_definition fs_reports :: filesystem is
  "[os_path_join ''/d'' ''report.pdf'' \<mapsto> plain_file [0x58],
    os_path_join ''/d'' ''copy of report.pdf'' \<mapsto> plain_file [0x58]]"
  by (auto simp: has_nul_def os_path_join_def)

definition walk_reports :: "(string \<times> string list) list" where
  "walk_reports = [(''/d'', [''report.pdf'', ''copy of report.pdf''])]"

lift_definition fs_locked :: filesystem is
  "[os_path_join ''/d'' ''a.txt'' \<mapsto> locked_file [0x61, 0x62, 0x63],
    os_path_join ''/d'' ''a (1).txt'' \<mapsto> locked_file [0x31, 0x32, 0x33, 0x34, 0x35]]"
  by (auto simp: has_nul_def os_path_join_def)

text \<open>
  The directory \<open>/d\<close> with the two report files both empty, and with the copy one that
  cannot be opened.
\<close>

lift_definition fs_empty_reports :: filesystem is
  "[os_path_join ''/d'' ''report.pdf'' \<mapsto> plain_file [],
    os_path_join ''/d'' ''copy of report.pdf'' \<mapsto> plain_file []]"
  by (auto simp: has_nul_def os_path_join_def)

lift_definition fs_locked_copy :: filesystem is
  "[os_path_join ''/d'' ''report.pdf'' \<mapsto> plain_file [0x58],
    os_path_join ''/d'' ''copy of report.pdf'' \<mapsto> locked_file [0x58]]"
  by (auto simp: has_nul_def os_path_join_def)


definition walk_locked :: "(string \<times> string list) list" where
  "walk_locked = [(''/d'', [''a.txt'', ''a (1).txt''])]"

text \<open>A callback that records the values it is called with.\<close>

definition record_progress :: "nat list callback" where
  "record_progress v vs = (None, vs @ [v])"

section \<open>The progress value is monotone and at most 50\<close>

declare bit_length.simps [simp del]

lemma bit_length_pos: "0 < n \<Longrightarrow> 1 \<le> bit_length n"
proof (induction n rule: bit_length.induct)
  case (1 n)
  show ?case
  proof (cases "0 < n div 2")
    case True
    with 1 have "1 \<le> bit_length (n div 2)" by simp
    with 1(2) show ?thesis by (subst bit_length.simps) simp
  next
    case False
    then have "bit_length (n div 2) = 0" by (subst bit_length.simps) simp
    with 1(2) show ?thesis by (subst bit_length.simps) simp
  qed
qed

lemma bit_length_bounds:
  "0 < n \<Longrightarrow> 2 ^ nat (bit_length n - 1) \<le> n \<and> n < 2 ^ nat (bit_length n)"
proof (induction n rule: bit_length.induct)
  case (1 n)
  from 1(2) have bl: "bit_length n = 1 + bit_length (n div 2)"
    by (subst bit_length.simps) simp
  show ?case
  proof (cases "0 < n div 2")
    case False
    with 1(2) have n: "n = 1" by simp
    have "bit_length 0 = 0" by (subst bit_length.simps) simp
    with n bl show ?thesis by simp
  next
    case m: True
    from 1(1)[OF _ m] 1(2) have
      lo: "2 ^ nat (bit_length (n div 2) - 1) \<le> n div 2"
      and hi: "n div 2 < 2 ^ nat (bit_length (n div 2))"
      by simp_all
    have pos: "nat (bit_length (n div 2)) = Suc (nat (bit_length (n div 2) - 1))"
      using bit_length_pos[OF m] by simp
    have "(2::int) ^ nat (bit_length (n div 2)) = 2 * 2 ^ nat (bit_length (n div 2) - 1)"
      by (subst pos) simp
    also have "\<dots> \<le> 2 * (n div 2)" using lo by simp
    also have "\<dots> \<le> n" by simp
    finally have 1: "2 ^ nat (bit_length n - 1) \<le> n" by (simp add: bl)
    have nat_bl: "nat (bit_length n) = Suc (nat (bit_length (n div 2)))"
      using bit_length_pos[OF m] by (simp add: bl)
    have "n < 2 * (n div 2 + 1)" by simp
    also have "\<dots> \<le> 2 * 2 ^ nat (bit_length (n div 2))" using hi by simp
    finally have 2: "n < 2 ^ nat (bit_length n)" by (simp add: nat_bl)
    from 1 2 show ?thesis by simp
  qed
qed

lemma floor_log2_bounds:
  assumes "0 < x"
  shows "2 powi (floor_log2 x) \<le> x \<and> x < 2 powi (floor_log2 x + 1)"
proof -
  obtain a b where q: "quotient_of x = (a, b)" by (cases "quotient_of x")
  have b: "0 < b" using q by (rule quotient_of_denom_pos)
  have x: "x = of_int a / of_int b" using q by (rule quotient_of_div)
  have a: "0 < a"
    using assms b x by (simp add: zero_less_divide_iff)
  define la lb where "la = bit_length a" and "lb = bit_length b"
  have la1: "1 \<le> la" and lb1: "1 \<le> lb"
    using bit_length_pos[OF a] bit_length_pos[OF b] by (simp_all add: la_def lb_def)
  have ia: "2 ^ nat (la - 1) \<le> a" "a < 2 ^ nat la" and ib: "2 ^ nat (lb - 1) \<le> b" "b < 2 ^ nat lb"
    using bit_length_bounds[OF a] bit_length_bounds[OF b] by (simp_all add: la_def lb_def)
  have rA: "(2::rat) powi (la - 1) \<le> of_int a" "(of_int a :: rat) < 2 powi la"
  proof -
    have "(of_int (2 ^ nat (la - 1)) :: rat) \<le> of_int a" using ia(1) by (simp only: of_int_le_iff)
    then show "(2::rat) powi (la - 1) \<le> of_int a"
      using la1 by (simp add: power_int_def)
    have "(of_int a :: rat) < of_int (2 ^ nat la)" using ia(2) by (simp only: of_int_less_iff)
    then show "(of_int a :: rat) < 2 powi la"
      using la1 by (simp add: power_int_def)
  qed
  have rB: "(2::rat) powi (lb - 1) \<le> of_int b" "(of_int b :: rat) < 2 powi lb"
  proof -
    have "(of_int (2 ^ nat (lb - 1)) :: rat) \<le> of_int b" using ib(1) by (simp only: of_int_le_iff)
    then show "(2::rat) powi (lb - 1) \<le> of_int b"
      using lb1 by (simp add: power_int_def)
    have "(of_int b :: rat) < of_int (2 ^ nat lb)" using ib(2) by (simp only: of_int_less_iff)
    then show "(of_int b :: rat) < 2 powi lb"
      using lb1 by (simp add: power_int_def)
  qed
  define d where "d = la - lb"
  have Bpos: "(0::rat) < of_int b" using b by simp
  have upper: "x < 2 powi (d + 1)"
  proof -
    have "x * 2 powi (lb - 1) \<le> x * of_int b"
      using rB(1) assms by (simp add: mult_left_mono)
    also have "\<dots> = of_int a" using x Bpos by simp
    also have "\<dots> < 2 powi la" by (rule rA(2))
    finally have "x < 2 powi la / 2 powi (lb - 1)"
      by (simp add: pos_less_divide_eq)
    also have "(2::rat) powi la / 2 powi (lb - 1) = 2 powi (la - (lb - 1))"
      by (rule power_int_diff[symmetric]) simp
    also have "la - (lb - 1) = d + 1"
      by (simp add: d_def)
    finally show ?thesis .
  qed
  have lower: "2 powi (d - 1) < x"
  proof -
    have "(2::rat) powi (la - 1) \<le> of_int a" by (rule rA(1))
    also have "\<dots> = x * of_int b" using x Bpos by simp
    also have "\<dots> < x * 2 powi lb"
      using rB(2) assms by (simp add: mult_strict_left_mono)
    finally have "(2::rat) powi (la - 1) / 2 powi lb < x"
      by (simp add: pos_divide_less_eq)
    moreover have "(2::rat) powi (la - 1) / 2 powi lb = 2 powi ((la - 1) - lb)"
      by (rule power_int_diff[symmetric]) simp
    moreover have "(la - 1) - lb = d - 1"
      by (simp add: d_def)
    ultimately show ?thesis by simp
  qed
  have fl: "floor_log2 x = (if 2 powi d \<le> x then d else d - 1)"
    by (simp add: floor_log2_def q Let_def d_def la_def lb_def)
  show ?thesis
  proof (cases "2 powi d \<le> x")
    case True
    with fl upper show ?thesis by simp
  next
    case False
    with fl lower show ?thesis by simp
  qed
qed

lemma floor_log2_mono:
  assumes "0 < x" and "x \<le> y"
  shows "floor_log2 x \<le> floor_log2 y"
proof (rule ccontr)
  assume "\<not> floor_log2 x \<le> floor_log2 y"
  then have "floor_log2 y + 1 \<le> floor_log2 x" by simp
  then have "(2::rat) powi (floor_log2 y + 1) \<le> 2 powi (floor_log2 x)"
    by (intro power_int_increasing) simp_all
  also have "\<dots> \<le> x" using floor_log2_bounds[OF assms(1)] by simp
  also have "\<dots> \<le> y" by (rule assms(2))
  finally show False
    using floor_log2_bounds[of y] assms by simp
qed

lemma round_half_even_of_int: "round_half_even (of_int m) = m"
  by (simp add: round_half_even_def)

lemma round_half_even_range:
  "\<lfloor>q\<rfloor> \<le> round_half_even q \<and> round_half_even q \<le> \<lfloor>q\<rfloor> + 1"
  by (simp add: round_half_even_def Let_def)

lemma round_half_even_mono:
  assumes "p \<le> q"
  shows "round_half_even p \<le> round_half_even q"
proof (cases "\<lfloor>p\<rfloor> = \<lfloor>q\<rfloor>")
  case True
  then have "p - of_int \<lfloor>p\<rfloor> \<le> q - of_int \<lfloor>q\<rfloor>"
    using assms by simp
  with True show ?thesis
    by (auto simp: round_half_even_def Let_def)
next
  case False
  then have "\<lfloor>p\<rfloor> + 1 \<le> \<lfloor>q\<rfloor>"
    using floor_mono[OF assms] by simp
  with round_half_even_range[of p] round_half_even_range[of q] show ?thesis
    by linarith
qed

lemma float_of_nonneg: "0 \<le> float_of x"
proof (cases "x \<le> 0")
  case True
  then show ?thesis by (simp add: float_of_def)
next
  case False
  let ?u = "(2::rat) powi (max (floor_log2 x) (- 1022) - 52)"
  have u: "0 < ?u" by simp
  have "0 \<le> x / ?u" using False u by (simp add: zero_le_divide_iff)
  then have "0 \<le> \<lfloor>x / ?u\<rfloor>" by simp
  with round_half_even_range[of "x / ?u"] have "0 \<le> round_half_even (x / ?u)"
    by linarith
  with u False show ?thesis
    by (simp add: float_of_def Let_def)
qed

lemma float_of_mono:
  assumes "x \<le> y"
  shows "float_of x \<le> float_of y"
proof (cases "x \<le> 0")
  case True
  then show ?thesis
    using float_of_nonneg[of y] by (simp add: float_of_def)
next
  case False
  then have x: "0 < x" and y: "0 < y" using assms by simp_all
  define ex ey where "ex = max (floor_log2 x) (- 1022)" and "ey = max (floor_log2 y) (- 1022)"
  define ux uy :: rat where "ux = 2 powi (ex - 52)" and "uy = 2 powi (ey - 52)"
  have fx: "float_of x = of_int (round_half_even (x / ux)) * ux"
    and fy: "float_of y = of_int (round_half_even (y / uy)) * uy"
    using x y by (simp_all add: float_of_def Let_def ux_def uy_def ex_def ey_def)
  have ux: "0 < ux" and uy: "0 < uy" by (simp_all add: ux_def uy_def)
  have le: "ex \<le> ey"
    using floor_log2_mono[OF x assms] unfolding ex_def ey_def by linarith
  show ?thesis
  proof (cases "ex = ey")
    case True
    then have same: "uy = ux" by (simp add: ux_def uy_def)
    have "x / ux \<le> y / ux"
      using assms ux by (simp add: divide_right_mono)
    then have "round_half_even (x / ux) \<le> round_half_even (y / ux)"
      by (rule round_half_even_mono)
    then have "of_int (round_half_even (x / ux)) * ux \<le> of_int (round_half_even (y / ux)) * ux"
      using ux by (simp add: mult_right_mono)
    then show ?thesis
      by (simp only: fx fy same)
  next
    case False
    with le have lt: "ex + 1 \<le> ey" by simp
    have ey: "ey = floor_log2 y"
      using lt unfolding ex_def ey_def by linarith
    have exl: "floor_log2 x + 1 \<le> ex + 1"
      unfolding ex_def by linarith
    have "x < 2 powi (floor_log2 x + 1)"
      using floor_log2_bounds[OF x] by simp
    also have "\<dots> \<le> 2 powi (ex + 1)"
      using exl by (intro power_int_increasing) simp_all
    finally have xlt: "x < 2 powi (ex + 1)" .
    have "x / ux \<le> 2 powi (ex + 1) / ux"
      using xlt ux by (simp add: divide_right_mono)
    also have "(2::rat) powi (ex + 1) / ux = 2 powi ((ex + 1) - (ex - 52))"
      unfolding ux_def by (rule power_int_diff[symmetric]) simp
    also have "(ex + 1) - (ex - 52) = 53" by simp
    finally have "x / ux \<le> of_int (2 ^ 53)" by simp
    then have "round_half_even (x / ux) \<le> round_half_even (of_int (2 ^ 53))"
      by (rule round_half_even_mono)
    then have "round_half_even (x / ux) \<le> 2 ^ 53"
      by (simp only: round_half_even_of_int)
    then have "(of_int (round_half_even (x / ux)) :: rat) \<le> of_int (2 ^ 53)"
      by (simp only: of_int_le_iff)
    then have "float_of x \<le> of_int (2 ^ 53) * ux"
      using ux unfolding fx by (intro mult_right_mono) simp_all
    also have "of_int (2 ^ 53) * ux = 2 powi 53 * 2 powi (ex - 52)"
      by (simp add: ux_def)
    also have "\<dots> = 2 powi (53 + (ex - 52))"
      by (rule power_int_add[symmetric]) simp
    also have "53 + (ex - 52) = ex + 1" by simp
    also have "(2::rat) powi (ex + 1) \<le> 2 powi ey"
      using lt by (intro power_int_increasing) simp_all
    finally have upper: "float_of x \<le> 2 powi ey" .
    have "(2::rat) powi ey \<le> y"
      using floor_log2_bounds[OF y] ey by simp
    then have "2 powi ey / uy \<le> y / uy"
      using uy by (simp add: divide_right_mono)
    moreover have "(2::rat) powi ey / uy = 2 powi (ey - (ey - 52))"
      unfolding uy_def by (rule power_int_diff[symmetric]) simp
    moreover have "ey - (ey - 52) = 52" by simp
    ultimately have "of_int (2 ^ 52) \<le> y / uy" by simp
    then have "round_half_even (of_int (2 ^ 52)) \<le> round_half_even (y / uy)"
      by (rule round_half_even_mono)
    then have "2 ^ 52 \<le> round_half_even (y / uy)"
      by (simp only: round_half_even_of_int)
    then have "(of_int (2 ^ 52) :: rat) \<le> of_int (round_half_even (y / uy))"
      by (simp only: of_int_le_iff)
    then have "of_int (2 ^ 52) * uy \<le> float_of y"
      using uy unfolding fy by (intro mult_right_mono) simp_all
    moreover have "of_int (2 ^ 52) * uy = 2 powi 52 * 2 powi (ey - 52)"
      by (simp add: uy_def)
    moreover have "(2::rat) powi 52 * 2 powi (ey - 52) = 2 powi (52 + (ey - 52))"
      by (rule power_int_add[symmetric]) simp
    moreover have "52 + (ey - 52) = ey" by simp
    ultimately have lower: "2 powi ey \<le> float_of y" by simp
    from upper lower show ?thesis by simp
  qed
qed

lemma float_of_1: "float_of 1 = 1"
  by code_simp

lemma float_of_50: "float_of 50 = 50"
  by code_simp

lemma progress_percent_mono:
  assumes "a \<le> b"
  shows "progress_percent a n \<le> progress_percent b n"
proof -
  have "(of_nat a :: rat) / of_nat n \<le> of_nat b / of_nat n"
    using assms by (simp add: divide_right_mono)
  then have "float_of (of_nat a / of_nat n) * 50 \<le> float_of (of_nat b / of_nat n) * 50"
    using float_of_mono by simp
  then have "float_of (float_of (of_nat a / of_nat n) * 50) \<le>
             float_of (float_of (of_nat b / of_nat n) * 50)"
    by (rule float_of_mono)
  then show ?thesis
    unfolding progress_percent_def by (intro nat_mono floor_mono)
qed

lemma progress_percent_le_50:
  assumes "k \<le> n"
  shows "progress_percent k n \<le> 50"
proof -
  have "(of_nat k :: rat) / of_nat n \<le> 1"
    using assms by (cases "n = 0") (simp_all add: divide_le_eq_1)
  then have "float_of (of_nat k / of_nat n) \<le> float_of 1"
    by (rule float_of_mono)
  then have "float_of (of_nat k / of_nat n) * 50 \<le> 50"
    by (simp add: float_of_1)
  then have "float_of (float_of (of_nat k / of_nat n) * 50) \<le> float_of 50"
    by (rule float_of_mono)
  then have "float_of (float_of (of_nat k / of_nat n) * 50) \<le> 50"
    by (simp only: float_of_50)
  then have "\<lfloor>float_of (float_of (of_nat k / of_nat n) * 50)\<rfloor> \<le> \<lfloor>50 :: rat\<rfloor>"
    by (rule floor_mono)
  then have "nat \<lfloor>float_of (float_of (of_nat k / of_nat n) * 50)\<rfloor> \<le> nat \<lfloor>50 :: rat\<rfloor>"
    by (rule nat_mono)
  then show ?thesis
    unfolding progress_percent_def by simp
qed


text \<open>
  The double nearest to one tenth; the values the examples use; and one where the
  rounding of the product shows: \<open>29 / 50\<close> is not a double, and the product of its
  double with 50 is below 29.
\<close>

lemma float_of_tenth: "float_of (1 / 10) = 3602879701896397 / 36028797018963968"
  by code_simp

lemma progress_percent_1_2: "progress_percent 1 2 = 25"
  by code_simp

lemma progress_percent_2_2: "progress_percent 2 2 = 50"
  by code_simp

lemma progress_percent_Suc_0_2: "progress_percent (Suc 0) 2 = 25"
  using progress_percent_1_2 by simp

lemma progress_percent_29_50: "progress_percent 29 50 = 28"
  by code_simp

section \<open>The accessors of FileInfo\<close>

declare quick_hash_loop.simps [simp del] full_hash_loop.simps [simp del]

lemma file_at_nul: "has_nul p \<Longrightarrow> file_at fs p = None"
  using file_at[of fs] by simp

lemma file_at_no_nul: "file_at fs p = Some f \<Longrightarrow> \<not> has_nul p"
  using file_at_nul[of p fs] by auto

lemma getsize_raises:
  "\<not> has_nul p \<Longrightarrow> os_path_getsize fs p = Inl e \<Longrightarrow> isinstance_OSError e"
  by (auto simp: os_path_getsize_def isinstance_OSError_def split: option.splits)

lemma getsize_nul: "has_nul p \<Longrightarrow> os_path_getsize fs p = Inl ValueError"
  by (simp add: os_path_getsize_def)

lemma open_rb_nul: "has_nul p \<Longrightarrow> open_rb fs p = Inl ValueError"
  by (simp add: open_rb_def)

lemma f_read_raises: "f_read f pos n = Inl e \<Longrightarrow> isinstance_OSError e"
  by (auto simp: f_read_def isinstance_OSError_def split: option.splits)

lemma quick_hash_loop_raises:
  "quick_hash_loop f md5 n = Inl e \<Longrightarrow> isinstance_OSError e"
proof (induction f md5 n rule: quick_hash_loop.induct)
  case (1 f md5 bytes_read)
  then show ?case
    by (subst (asm) (2) quick_hash_loop.simps)
       (auto split: if_splits sum.splits dest: f_read_raises)
qed

lemma full_hash_loop_raises:
  "full_hash_loop f md5 n = Inl e \<Longrightarrow> isinstance_OSError e"
proof (induction f md5 n rule: full_hash_loop.induct)
  case (1 f md5 pos)
  then show ?case
    by (subst (asm) (2) full_hash_loop.simps)
       (auto split: if_splits sum.splits dest: f_read_raises)
qed

lemma take_then_rest: "take n ys @ drop (length (take n ys)) ys = ys"
proof (cases "n \<le> length ys")
  case True
  then show ?thesis by (simp add: min_def)
next
  case False
  then show ?thesis by simp
qed

lemma chunk_then_rest:
  "take n (drop pos xs) @ drop (pos + length (take n (drop pos xs))) xs = drop pos xs"
proof -
  have "drop (pos + length (take n (drop pos xs))) xs
        = drop (length (take n (drop pos xs))) (drop pos xs)"
    by (simp only: drop_drop add.commute)
  then show ?thesis
    by (simp only: take_then_rest)
qed

lemma full_hash_loop_readable:
  "read_error f = None \<Longrightarrow> full_hash_loop f md5 pos = Inr (md5 @ drop pos (content f))"
proof (induction f md5 pos rule: full_hash_loop.induct)
  case (1 f md5 pos)
  let ?chunk = "take CHUNK_SIZE (drop pos (content f))"
  have rd: "f_read f pos CHUNK_SIZE = Inr ?chunk"
    using 1(2) by (simp add: f_read_def)
  show ?case
  proof (cases "?chunk = []")
    case True
    have "CHUNK_SIZE \<noteq> 0" by (simp add: CHUNK_SIZE_def)
    with True have "drop pos (content f) = []" by (simp add: take_eq_Nil)
    with rd True show ?thesis
      by (subst full_hash_loop.simps) simp
  next
    case False
    have "full_hash_loop f (md5 @ ?chunk) (pos + length ?chunk)
          = Inr ((md5 @ ?chunk) @ drop (pos + length ?chunk) (content f))"
      using 1(1)[OF rd False 1(2)] .
    also have "\<dots> = Inr (md5 @ drop pos (content f))"
      using chunk_then_rest[of CHUNK_SIZE pos "content f"] by (simp only: append_assoc)
    finally show ?thesis
      using rd False by (subst full_hash_loop.simps) simp
  qed
qed

lemma quick_hash_loop_readable:
  "read_error f = None \<Longrightarrow>
   quick_hash_loop f md5 n = Inr (md5 @ take (MAX_QUICK_READ_SIZE - n) (drop n (content f)))"
proof (induction f md5 n rule: quick_hash_loop.induct)
  case (1 f md5 n)
  let ?k = "min CHUNK_SIZE (MAX_QUICK_READ_SIZE - n)"
  let ?chunk = "take ?k (drop n (content f))"
  have rd: "f_read f n ?k = Inr ?chunk"
    using 1(2) by (simp add: f_read_def)
  show ?case
  proof (cases "n < MAX_QUICK_READ_SIZE")
    case False
    then show ?thesis by (subst quick_hash_loop.simps) simp
  next
    case lt: True
    have kpos: "?k \<noteq> 0" using lt by (simp add: CHUNK_SIZE_def)
    show ?thesis
    proof (cases "?chunk = []")
      case True
      with kpos have "drop n (content f) = []" by (simp only: take_eq_Nil) simp
      with rd True lt show ?thesis
        by (subst quick_hash_loop.simps) simp
    next
      case False
      have step: "quick_hash_loop f (md5 @ ?chunk) (n + length ?chunk)
            = Inr ((md5 @ ?chunk) @
                   take (MAX_QUICK_READ_SIZE - (n + length ?chunk))
                     (drop (n + length ?chunk) (content f)))"
        using 1(1)[OF lt rd False 1(2)] .
      have len: "length ?chunk \<le> MAX_QUICK_READ_SIZE - n" by simp
      have "take (MAX_QUICK_READ_SIZE - n) (drop n (content f))
            = take (length ?chunk) (drop n (content f)) @
              take (MAX_QUICK_READ_SIZE - n - length ?chunk)
                (drop (length ?chunk) (drop n (content f)))"
        using len by (metis le_add_diff_inverse take_add)
      moreover have "take (length ?chunk) (drop n (content f)) = ?chunk"
        by (simp add: min_def)
      ultimately have "take (MAX_QUICK_READ_SIZE - n) (drop n (content f))
            = ?chunk @ take (MAX_QUICK_READ_SIZE - (n + length ?chunk))
                (drop (n + length ?chunk) (content f))"
        by (simp only: drop_drop add.commute diff_diff_left)
      with step have "quick_hash_loop f (md5 @ ?chunk) (n + length ?chunk)
            = Inr (md5 @ take (MAX_QUICK_READ_SIZE - n) (drop n (content f)))"
        by (simp only: append_assoc)
      then show ?thesis
        using rd False lt by (subst quick_hash_loop.simps) simp
    qed
  qed
qed


lemma except_OSError: "isinstance_OSError e \<Longrightarrow> except_OSError_PermissionError e"
  by (simp add: except_OSError_PermissionError_def)

lemma except_OSError_simp [simp]: "except_OSError_PermissionError (OSError e)"
  by (simp add: except_OSError_PermissionError_def isinstance_OSError_def)

lemma except_ValueError [simp]: "\<not> except_OSError_PermissionError ValueError"
  by (simp add: except_OSError_PermissionError_def isinstance_OSError_def
      isinstance_PermissionError_def)

lemma size_try: "os_path_getsize fs p = Inr n \<Longrightarrow> stat_size fs p = n"
  by (auto simp: os_path_getsize_def stat_size_def split: option.splits if_splits)

lemma size_try_fails: "os_path_getsize fs p = Inl e \<Longrightarrow> stat_size fs p = 0"
  by (auto simp: os_path_getsize_def stat_size_def file_at_nul split: option.splits if_splits)

lemma FileInfo_size_cached:
  "cached_size self = Some n \<Longrightarrow> FileInfo_size fs self = Inr (n, self)"
  by (simp add: FileInfo_size_def)

lemma FileInfo_quick_hash_cached:
  "cached_quick_hash self = Some h \<Longrightarrow> FileInfo_quick_hash H fs self = Inr (h, self)"
  by (simp add: FileInfo_quick_hash_def)

lemma FileInfo_full_hash_cached:
  "cached_full_hash self = Some h \<Longrightarrow> FileInfo_full_hash H fs self = Inr (h, self)"
  by (simp add: FileInfo_full_hash_def)

lemma FileInfo_size_eq:
  assumes "\<not> has_nul (path self)"
  shows "FileInfo_size fs self =
     Inr (case cached_size self of
            Some n \<Rightarrow> (n, self)
          | None \<Rightarrow> (stat_size fs (path self),
                     self\<lparr>cached_size := Some (stat_size fs (path self))\<rparr>))"
proof (cases "cached_size self")
  case None
  show ?thesis
  proof (cases "os_path_getsize fs (path self)")
    case (Inl e)
    with None assms show ?thesis
      by (simp add: FileInfo_size_def size_try_fails except_OSError getsize_raises)
  next
    case (Inr n)
    with None show ?thesis
      by (simp add: FileInfo_size_def size_try)
  qed
next
  case (Some n)
  then show ?thesis by (simp add: FileInfo_size_def)
qed

lemma FileInfo_size_nul:
  "has_nul (path self) \<Longrightarrow> cached_size self = None \<Longrightarrow> FileInfo_size fs self = Inl ValueError"
  by (simp add: FileInfo_size_def getsize_nul)

lemma full_hash_loop_unreadable:
  "read_error f = Some e \<Longrightarrow> full_hash_loop f md5 pos = Inl (OSError e)"
  by (subst full_hash_loop.simps) (simp add: f_read_def)

lemma quick_hash_loop_unreadable:
  "read_error f = Some e \<Longrightarrow> quick_hash_loop f md5 0 = Inl (OSError e)"
  by (subst quick_hash_loop.simps) (simp add: f_read_def MAX_QUICK_READ_SIZE_def)

lemma full_hash_try:
  "\<not> has_nul p \<Longrightarrow>
   (case open_rb fs p of Inl e \<Rightarrow> Inl e | Inr f \<Rightarrow> full_hash_loop f [] 0) =
     (case file_at fs p of
        None \<Rightarrow> Inl (OSError FileNotFoundError)
      | Some f \<Rightarrow>
          (case open_error f of
             Some e \<Rightarrow> Inl (OSError e)
           | None \<Rightarrow>
               (case read_error f of
                  Some e \<Rightarrow> Inl (OSError e)
                | None \<Rightarrow> Inr (content f))))"
  by (simp add: open_rb_def full_hash_loop_readable full_hash_loop_unreadable
           split: option.splits)

lemma quick_hash_try:
  "\<not> has_nul p \<Longrightarrow>
   (case open_rb fs p of Inl e \<Rightarrow> Inl e | Inr f \<Rightarrow> quick_hash_loop f [] 0) =
     (case file_at fs p of
        None \<Rightarrow> Inl (OSError FileNotFoundError)
      | Some f \<Rightarrow>
          (case open_error f of
             Some e \<Rightarrow> Inl (OSError e)
           | None \<Rightarrow>
               (case read_error f of
                  Some e \<Rightarrow> Inl (OSError e)
                | None \<Rightarrow> Inr (take MAX_QUICK_READ_SIZE (content f)))))"
  by (simp add: open_rb_def quick_hash_loop_readable quick_hash_loop_unreadable
           split: option.splits)

lemma FileInfo_full_hash_eq:
  assumes "\<not> has_nul (path self)"
  shows "FileInfo_full_hash H fs self =
     Inr (case cached_full_hash self of
            Some h \<Rightarrow> (h, self)
          | None \<Rightarrow> (full_digest H fs (path self),
                     self\<lparr>cached_full_hash := Some (full_digest H fs (path self))\<rparr>))"
  unfolding FileInfo_full_hash_def full_hash_try[OF assms]
  by (simp add: full_digest_def split: option.splits)

lemma FileInfo_quick_hash_eq:
  assumes "\<not> has_nul (path self)"
  shows "FileInfo_quick_hash H fs self =
     Inr (case cached_quick_hash self of
            Some h \<Rightarrow> (h, self)
          | None \<Rightarrow> (quick_digest H fs (path self),
                     self\<lparr>cached_quick_hash := Some (quick_digest H fs (path self))\<rparr>))"
  unfolding FileInfo_quick_hash_def quick_hash_try[OF assms]
  by (simp add: quick_digest_def split: option.splits)

lemma FileInfo_quick_hash_nul:
  "has_nul (path self) \<Longrightarrow> cached_quick_hash self = None \<Longrightarrow>
   FileInfo_quick_hash H fs self = Inl ValueError"
  by (simp add: FileInfo_quick_hash_def open_rb_nul)

lemma FileInfo_full_hash_nul:
  "has_nul (path self) \<Longrightarrow> cached_full_hash self = None \<Longrightarrow>
   FileInfo_full_hash H fs self = Inl ValueError"
  by (simp add: FileInfo_full_hash_def open_rb_nul)




lemma accessed_caches:
  "accessed H fs self \<Longrightarrow>
     (\<forall>n. cached_size self = Some n \<longrightarrow> n = stat_size fs (path self)) \<and>
     (\<forall>h. cached_quick_hash self = Some h \<longrightarrow> h = quick_digest H fs (path self)) \<and>
     (\<forall>h. cached_full_hash self = Some h \<longrightarrow> h = full_digest H fs (path self))"
proof (induction rule: accessed.induct)
  case (created p)
  show ?case by (simp add: FileInfo_init_def)
next
  case (after_size self n self')
  show ?case
  proof (cases "cached_size self")
    case None
    with after_size(2) have "\<not> has_nul (path self)"
      by (auto simp: FileInfo_size_nul)
    with None after_size show ?thesis
      by (auto simp: FileInfo_size_eq)
  next
    case (Some m)
    with after_size show ?thesis
      by (auto simp: FileInfo_size_cached)
  qed
next
  case (after_quick_hash self h self')
  show ?case
  proof (cases "cached_quick_hash self")
    case None
    with after_quick_hash(2) have "\<not> has_nul (path self)"
      by (auto simp: FileInfo_quick_hash_nul)
    with None after_quick_hash show ?thesis
      by (auto simp: FileInfo_quick_hash_eq)
  next
    case (Some m)
    with after_quick_hash show ?thesis
      by (auto simp: FileInfo_quick_hash_cached)
  qed
next
  case (after_full_hash self h self')
  show ?case
  proof (cases "cached_full_hash self")
    case None
    with after_full_hash(2) have "\<not> has_nul (path self)"
      by (auto simp: FileInfo_full_hash_nul)
    with None after_full_hash show ?thesis
      by (auto simp: FileInfo_full_hash_eq)
  next
    case (Some m)
    with after_full_hash show ?thesis
      by (auto simp: FileInfo_full_hash_cached)
  qed
qed

text \<open>
  Claim C9. For a FileInfo made by the constructor and used through its accessors, whose
  file can be opened and read and holds at most \<open>MAX_QUICK_READ_SIZE\<close> = 1024 * 1024
  bytes, \<open>quick_hash\<close> and \<open>full_hash\<close> return the same string, the digest of the whole
  content.
\<close>

theorem quick_hash_is_full_hash_up_to_1MiB:
  assumes "accessed H fs self"
    and "file_at fs (path self) = Some f"
    and "open_error f = None" and "read_error f = None"
    and "length (content f) \<le> MAX_QUICK_READ_SIZE"
  shows "\<exists>h s1 s2. FileInfo_quick_hash H fs self = Inr (h, s1) \<and>
                   FileInfo_full_hash H fs self = Inr (h, s2) \<and> h = H (content f)"
proof -
  have q: "quick_digest H fs (path self) = H (content f)"
    using assms(2-5) by (simp add: quick_digest_def)
  have u: "full_digest H fs (path self) = H (content f)"
    using assms(2-4) by (simp add: full_digest_def)
  have n: "\<not> has_nul (path self)"
    using assms(2) by (rule file_at_no_nul)
  from accessed_caches[OF assms(1)] q u show ?thesis
    by (cases "cached_quick_hash self"; cases "cached_full_hash self")
       (simp_all add: FileInfo_quick_hash_eq[OF n] FileInfo_full_hash_eq[OF n])
qed

theorem quick_hash_is_full_hash_up_to_1MiB_witness:
  "accessed hex_of_bytes fs_reports (FileInfo_init (os_path_join ''/d'' ''report.pdf'')) \<and>
   file_at fs_reports (path (FileInfo_init (os_path_join ''/d'' ''report.pdf''))) =
     Some (plain_file [0x58]) \<and>
   open_error (plain_file [0x58]) = None \<and> read_error (plain_file [0x58]) = None \<and>
   length (content (plain_file [0x58])) \<le> MAX_QUICK_READ_SIZE \<and>
   (\<exists>h s1 s2.
      FileInfo_quick_hash hex_of_bytes fs_reports
        (FileInfo_init (os_path_join ''/d'' ''report.pdf'')) = Inr (h, s1) \<and>
      FileInfo_full_hash hex_of_bytes fs_reports
        (FileInfo_init (os_path_join ''/d'' ''report.pdf'')) = Inr (h, s2) \<and>
      h = hex_of_bytes (content (plain_file [0x58])))"
proof -
  let ?r = "FileInfo_init (os_path_join ''/d'' ''report.pdf'')"
  have a: "accessed hex_of_bytes fs_reports ?r"
    by (rule accessed.created)
  have b: "file_at fs_reports (path ?r) = Some (plain_file [0x58])"
    by (simp add: fs_reports.rep_eq FileInfo_init_def os_path_join_def)
  have c: "open_error (plain_file [0x58]) = None" and d: "read_error (plain_file [0x58]) = None"
    by (simp_all add: plain_file_def)
  have e: "length (content (plain_file [0x58])) \<le> MAX_QUICK_READ_SIZE"
    by (simp add: plain_file_def MAX_QUICK_READ_SIZE_def)
  from a b c d e quick_hash_is_full_hash_up_to_1MiB[OF a b c d e] show ?thesis
    by (intro conjI)
qed

section \<open>The loops as functions\<close>

lemma FileInfo_size_init:
  "\<not> has_nul p \<Longrightarrow>
   FileInfo_size fs (FileInfo_init p) = Inr (stat_size fs p, catalogued fs p)"
  by (simp add: FileInfo_size_eq catalogued_def FileInfo_init_def)

lemma FileInfo_size_init_nul:
  "has_nul p \<Longrightarrow> FileInfo_size fs (FileInfo_init p) = Inl ValueError"
  by (rule FileInfo_size_nul) (simp_all add: FileInfo_init_def)

lemma stat_size_nul: "has_nul p \<Longrightarrow> stat_size fs p = 0"
  by (simp add: stat_size_def file_at_nul)

lemma scan_file_nul:
  "has_nul (os_path_join root' nm) \<Longrightarrow> scan_file fs pct cb n chunk root' nm st = st"
  by (simp add: scan_file_def FileInfo_size_init_nul)

lemma scan_file_directory:
  "sc_files_by_directory (scan_file fs pct cb n chunk root' nm st) =
     (if 0 < stat_size fs (os_path_join root' nm)
      then defaultdict_append root' (catalogued fs (os_path_join root' nm))
             (sc_files_by_directory st)
      else sc_files_by_directory st)"
proof (cases "has_nul (os_path_join root' nm)")
  case True
  then show ?thesis
    by (simp add: scan_file_nul stat_size_nul)
next
  case False
  then show ?thesis
    by (simp add: scan_file_def FileInfo_size_init Let_def split: option.splits prod.splits)
qed

lemma scan_file_processed:
  "sc_processed_files (scan_file fs pct cb n chunk root' nm st) =
     sc_processed_files st + (if has_nul (os_path_join root' nm) then 0 else 1)"
proof (cases "has_nul (os_path_join root' nm)")
  case True
  then show ?thesis
    by (simp add: scan_file_nul)
next
  case False
  then show ?thesis
    by (simp add: scan_file_def FileInfo_size_init Let_def split: option.splits prod.splits)
qed

lemma scan_file_callback:
  "\<not> has_nul (os_path_join root' nm) \<Longrightarrow>
   sc_callback_state (scan_file fs pct (Some cb) n chunk root' nm st) =
     (if (sc_processed_files st + 1) mod chunk = 0
      then snd (cb (pct (sc_processed_files st + 1) n) (sc_callback_state st))
      else sc_callback_state st)"
  by (auto simp: scan_file_def FileInfo_size_init Let_def split: option.splits prod.splits)

lemma scan_file_no_callback:
  "sc_callback_state (scan_file fs pct None n chunk root' nm st) = sc_callback_state st"
proof (cases "has_nul (os_path_join root' nm)")
  case True
  then show ?thesis
    by (simp add: scan_file_nul)
next
  case False
  then show ?thesis
    by (simp add: scan_file_def FileInfo_size_init Let_def split: option.splits prod.splits)
qed

lemma fold_walk:
  "fold (\<lambda>(root, files). fold (F root) files) walk st =
   fold (\<lambda>p. F (parent p) (name p)) (walk_paths walk) st"
proof (induction walk arbitrary: st)
  case Nil
  show ?case by (simp add: walk_paths_def)
next
  case (Cons rf walk)
  obtain root' files where rf: "rf = (root', files)" by (cases rf)
  have "fold (\<lambda>p. F (parent p) (name p)) (map (os_path_join root') files) st
        = fold (F root') files st"
    by (simp add: fold_map comp_def os_path_join_def)
  with Cons show ?case
    by (simp add: rf walk_paths_def)
qed

lemma fold_scan_directory:
  "sc_files_by_directory
     (fold (\<lambda>p. scan_file fs pct cb n chunk (parent p) (name p)) ps st) =
   fold (\<lambda>p d. if 0 < stat_size fs p
                then defaultdict_append (parent p) (catalogued fs p) d else d)
     ps (sc_files_by_directory st)"
proof (induction ps arbitrary: st)
  case Nil
  show ?case by simp
next
  case (Cons p ps)
  have "os_path_join (parent p) (name p) = p"
    by (simp add: os_path_join_def)
  then show ?case
    by (simp add: Cons scan_file_directory)
qed

lemma fold_scan_processed:
  "sc_processed_files
     (fold (\<lambda>p. scan_file fs pct cb n chunk (parent p) (name p)) ps st) =
   sc_processed_files st + length (filter (\<lambda>p. \<not> has_nul p) ps)"
proof (induction ps arbitrary: st)
  case Nil
  show ?case by simp
next
  case (Cons p ps)
  have "os_path_join (parent p) (name p) = p"
    by (simp add: os_path_join_def)
  then show ?case
    by (simp add: Cons scan_file_processed)
qed

lemma fold_scan_no_callback:
  "sc_callback_state
     (fold (\<lambda>p. scan_file fs pct None n chunk (parent p) (name p)) ps st) =
   sc_callback_state st"
  by (induction ps arbitrary: st) (simp_all add: scan_file_no_callback)

lemma fold_scan_callback:
  "sc_callback_state
     (fold (\<lambda>p. scan_file fs pct (Some cb) n chunk (parent p) (name p)) ps st) =
   fold (\<lambda>v s. snd (cb v s))
     (map (\<lambda>k. pct k n)
        (filter (\<lambda>k. k mod chunk = 0)
           [sc_processed_files st + 1..<
            sc_processed_files st + length (filter (\<lambda>p. \<not> has_nul p) ps) + 1]))
     (sc_callback_state st)"
proof (induction ps arbitrary: st)
  case Nil
  show ?case by simp
next
  case (Cons p ps)
  have p: "os_path_join (parent p) (name p) = p"
    by (simp add: os_path_join_def)
  show ?case
  proof (cases "has_nul p")
    case True
    then show ?thesis
      by (simp add: Cons scan_file_nul p)
  next
    case False
    let ?k = "sc_processed_files st"
    let ?m = "length (filter (\<lambda>p. \<not> has_nul p) ps)"
    have m: "length (filter (\<lambda>p. \<not> has_nul p) (p # ps)) = ?m + 1"
      using False by simp
    have "[?k + 1..<?k + (?m + 1) + 1] = (?k + 1) # [Suc (?k + 1)..<?k + (?m + 1) + 1]"
      by (rule upt_conv_Cons) simp
    also have "[Suc (?k + 1)..<?k + (?m + 1) + 1] = [?k + 1 + 1..<?k + 1 + ?m + 1]"
      by simp
    finally have upt: "[?k + 1..<?k + (?m + 1) + 1] = (?k + 1) # [?k + 1 + 1..<?k + 1 + ?m + 1]" .
    have step: "sc_processed_files (scan_file fs pct (Some cb) n chunk (parent p) (name p) st)
                = ?k + 1"
      using False by (simp add: scan_file_processed p)
    show ?thesis
      unfolding m upt
      using False by (simp add: Cons step scan_file_callback p)
  qed
qed

lemma length_walk_paths:
  "length (walk_paths walk) = sum_list (map (\<lambda>(root, files). length files) walk)"
  by (induction walk) (auto simp: walk_paths_def)

lemma scan_directory_unfold:
  "scan_directory fs pct walk cb s =
     (if length (walk_paths walk) = 0 then ([], [], s)
      else
        (let st = fold (\<lambda>p. scan_file fs pct cb (length (walk_paths walk))
                            (max 1 (length (walk_paths walk) div 100)) (parent p) (name p))
                    (walk_paths walk)
                    \<lparr>sc_files_by_size = [], sc_files_by_directory = [],
                     sc_processed_files = 0, sc_callback_state = s\<rparr>
         in (sc_files_by_size st, sc_files_by_directory st, sc_callback_state st)))"
  by (simp only: scan_directory_def length_walk_paths[symmetric] fold_walk Let_def)

lemma scan_directory_index:
  "fst (snd (scan_directory fs pct walk cb s)) = directory_index fs (walk_paths walk)"
proof (cases "walk_paths walk = []")
  case True
  then show ?thesis
    by (simp add: scan_directory_unfold directory_index_def)
next
  case False
  then show ?thesis
    by (simp add: scan_directory_unfold Let_def fold_scan_directory directory_index_def)
qed

lemma scan_directory_callback:
  "snd (snd (scan_directory fs pct walk (Some cb) s)) =
   fold (\<lambda>v s. snd (cb v s))
     (phase1_values pct (length (walk_paths walk)) (length (counted_paths walk))) s"
proof (cases "walk_paths walk = []")
  case True
  then show ?thesis
    by (simp add: scan_directory_unfold phase1_values_def counted_paths_def)
next
  case False
  then show ?thesis
    by (simp add: scan_directory_unfold Let_def fold_scan_callback phase1_values_def
          counted_paths_def)
qed

lemma scan_directory_no_callback:
  "snd (snd (scan_directory fs pct walk None s)) = s"
  by (simp add: scan_directory_unfold Let_def fold_scan_no_callback)

section \<open>Buckets\<close>

lemma dict_values_append:
  "mset (dict_values (defaultdict_append k v d)) = add_mset v (mset (dict_values d))"
  by (induction d) (auto simp: dict_values_def)

lemma defaultdict_append_member:
  "(k', vs) \<in> set (defaultdict_append k v d) \<Longrightarrow> x \<in> set vs \<Longrightarrow>
   (x = v \<and> k' = k) \<or> (\<exists>vs'. (k', vs') \<in> set d \<and> x \<in> set vs')"
proof (induction k v d rule: defaultdict_append.induct)
  case (1 k v)
  then show ?case by simp
next
  case (2 k v k0 vs0 d)
  show ?case
  proof (cases "k = k0")
    case True
    with 2(2,3) show ?thesis by auto
  next
    case False
    with 2(2) have "(k', vs) = (k0, vs0) \<or> (k', vs) \<in> set (defaultdict_append k v d)"
      by simp
    then show ?thesis
    proof
      assume "(k', vs) = (k0, vs0)"
      with 2(3) show ?thesis by auto
    next
      assume "(k', vs) \<in> set (defaultdict_append k v d)"
      from 2(1)[OF False this 2(3)] show ?thesis by auto
    qed
  qed
qed

lemma fold_append_mset:
  "mset (dict_values (fold (\<lambda>x. defaultdict_append (f x) (g x)) xs d)) =
   mset (map g xs) + mset (dict_values d)"
  by (induction xs arbitrary: d) (simp_all add: dict_values_append)

lemma fold_append_member:
  "(k, vs) \<in> set (fold (\<lambda>x. defaultdict_append (f x) (g x)) xs d) \<Longrightarrow> v \<in> set vs \<Longrightarrow>
   (\<exists>x \<in> set xs. v = g x \<and> k = f x) \<or> (\<exists>vs'. (k, vs') \<in> set d \<and> v \<in> set vs')"
proof (induction xs arbitrary: d)
  case Nil
  then show ?case by auto
next
  case (Cons x xs)
  from Cons.prems have
    "(k, vs) \<in> set (fold (\<lambda>x. defaultdict_append (f x) (g x)) xs
                      (defaultdict_append (f x) (g x) d))"
    by simp
  from Cons.IH[OF this Cons.prems(2)] show ?case
  proof
    assume "\<exists>y \<in> set xs. v = g y \<and> k = f y"
    then show ?thesis by auto
  next
    assume "\<exists>vs'. (k, vs') \<in> set (defaultdict_append (f x) (g x) d) \<and> v \<in> set vs'"
    then obtain vs' where "(k, vs') \<in> set (defaultdict_append (f x) (g x) d)" "v \<in> set vs'"
      by blast
    from defaultdict_append_member[OF this] show ?thesis by auto
  qed
qed

lemma fold_if_filter:
  "fold (\<lambda>x d. if P x then F x d else d) xs d = fold F (filter P xs) d"
  by (induction xs arbitrary: d) simp_all

lemma directory_index_filter:
  "directory_index fs ps =
   fold (\<lambda>p. defaultdict_append (parent p) (catalogued fs p))
     (filter (\<lambda>p. 0 < stat_size fs p) ps) []"
  by (simp add: directory_index_def fold_if_filter)

lemma directory_index_member:
  assumes "(dir, files) \<in> set (directory_index fs ps)" and "file \<in> set files"
  shows "\<exists>p \<in> set ps. file = catalogued fs p \<and> parent p = dir \<and> 0 < stat_size fs p"
  using fold_append_member[OF assms[unfolded directory_index_filter]] by auto

lemma path_catalogued [simp]: "path (catalogued fs p) = p"
  by (simp add: catalogued_def FileInfo_init_def)

lemma path_hashed [simp]: "path (hashed H fs self) = path self"
  by (simp add: hashed_def)

lemma directory_index_paths:
  "mset (map path (dict_values (directory_index fs ps))) \<subseteq># mset ps"
proof -
  have "mset (map path (dict_values (directory_index fs ps))) =
        image_mset path (mset (dict_values (directory_index fs ps)))"
    by simp
  also have "\<dots> = mset (filter (\<lambda>p. 0 < stat_size fs p) ps)"
    by (simp only: directory_index_filter fold_append_mset)
       (simp add: dict_values_def image_mset.compositionality comp_def)
  finally show ?thesis
    by simp
qed

lemma name_dict_of_mset: "mset (dict_values (name_dict_of files)) = mset files"
  using fold_append_mset[of "\<lambda>file. get_normalized_name (name (path file))" "\<lambda>file. file" files "[]"]
  by (simp add: name_dict_of_def dict_values_def)

lemma name_dict_of_member:
  "(nm, similar_files) \<in> set (name_dict_of files) \<Longrightarrow> file \<in> set similar_files \<Longrightarrow>
   file \<in> set files \<and> get_normalized_name (name (path file)) = nm"
  using fold_append_member[of nm similar_files
      "\<lambda>x. get_normalized_name (name (path x))" "\<lambda>x. x" files "[]" "file"]
  by (auto simp: name_dict_of_def)

lemma hash_dict_of_paths:
  "mset (map path (dict_values (hash_dict_of H fs similar_files))) = mset (map path similar_files)"
proof -
  have "mset (map path (dict_values (hash_dict_of H fs similar_files))) =
        image_mset path (mset (dict_values (hash_dict_of H fs similar_files)))"
    by simp
  also have "\<dots> = mset (map path similar_files)"
    by (simp only: hash_dict_of_def fold_append_mset)
       (simp add: dict_values_def image_mset.compositionality comp_def)
  finally show ?thesis .
qed

lemma hash_dict_of_member:
  "(h, duplicates) \<in> set (hash_dict_of H fs similar_files) \<Longrightarrow> file \<in> set duplicates \<Longrightarrow>
   \<exists>file0 \<in> set similar_files. file = hashed H fs file0 \<and> h = hash_value H fs file0"
  using fold_append_member[of h duplicates "hash_value H fs" "hashed H fs" similar_files "[]" "file"]
  by (auto simp: hash_dict_of_def)
lemma FileInfo_full_hash_value:
  "\<not> has_nul (path self) \<Longrightarrow>
   FileInfo_full_hash H fs self = Inr (hash_value H fs self, hashed H fs self)"
  by (cases "cached_full_hash self")
     (simp_all add: FileInfo_full_hash_eq hash_value_def hashed_def)

lemma FileInfo_size_value:
  "\<not> has_nul (path self) \<Longrightarrow>
   \<exists>self'. FileInfo_size fs self = Inr (size_value fs self, self')"
  by (cases "cached_size self") (simp_all add: FileInfo_size_eq size_value_def)

lemma hash_dict_loop_eq:
  "(\<And>file. file \<in> set files \<Longrightarrow> \<not> has_nul (path file)) \<Longrightarrow>
   hash_dict_loop H fs files d =
   Inr (fold (\<lambda>file. defaultdict_append (hash_value H fs file) (hashed H fs file)) files d)"
  by (induction files arbitrary: d) (simp_all add: FileInfo_full_hash_value)

lemma groups_loop_eq:
  assumes "\<And>h duplicates file.
             (h, duplicates) \<in> set hash_dict \<Longrightarrow> file \<in> set duplicates \<Longrightarrow>
             \<not> has_nul (path file)"
  shows "groups_loop fs dir hash_dict acc = Inr (acc @ groups_of_hash_dict fs dir hash_dict)"
  using assms
proof (induction hash_dict arbitrary: acc)
  case Nil
  show ?case by (simp add: groups_of_hash_dict_def)
next
  case (Cons item hash_dict)
  obtain h duplicates where item: "item = (h, duplicates)" by (cases item)
  have rest: "groups_loop fs dir hash_dict acc' = Inr (acc' @ groups_of_hash_dict fs dir hash_dict)"
    for acc'
    by (rule Cons.IH) (rule Cons.prems, auto)
  show ?case
  proof (cases "length duplicates > 1")
    case True
    then have "duplicates ! 0 \<in> set duplicates"
      by (cases duplicates) simp_all
    with Cons.prems[of h duplicates] have "\<not> has_nul (path (duplicates ! 0))"
      by (simp add: item)
    then obtain self' where
      sz: "FileInfo_size fs (duplicates ! 0) = Inr (size_value fs (duplicates ! 0), self')"
      using FileInfo_size_value by blast
    show ?thesis
      using True rest sz by (simp add: item groups_of_hash_dict_def group_of_def)
  next
    case False
    then show ?thesis
      using rest by (simp add: item groups_of_hash_dict_def)
  qed
qed

lemma names_loop_eq:
  assumes "\<And>nm similar_files file.
             (nm, similar_files) \<in> set name_dict \<Longrightarrow> file \<in> set similar_files \<Longrightarrow>
             \<not> has_nul (path file)"
  shows "names_loop H fs dir name_dict acc =
   Inr (acc @ concat (map (\<lambda>(normalized_name, similar_files).
                             if length similar_files > 1
                             then groups_of_hash_dict fs dir (hash_dict_of H fs similar_files)
                             else [])
                        name_dict))"
  using assms
proof (induction name_dict arbitrary: acc)
  case Nil
  show ?case by simp
next
  case (Cons item name_dict)
  obtain nm similar_files where item: "item = (nm, similar_files)" by (cases item)
  have rest: "names_loop H fs dir name_dict acc' =
     Inr (acc' @ concat (map (\<lambda>(normalized_name, similar_files).
                             if length similar_files > 1
                             then groups_of_hash_dict fs dir (hash_dict_of H fs similar_files)
                             else [])
                        name_dict))" for acc'
    by (rule Cons.IH) (rule Cons.prems, auto)
  have here: "\<not> has_nul (path x)" if "x \<in> set similar_files" for x
    using Cons.prems[of nm similar_files x] that by (simp add: item)
  have hd: "hash_dict_loop H fs similar_files [] = Inr (hash_dict_of H fs similar_files)"
    unfolding hash_dict_of_def by (rule hash_dict_loop_eq) (rule here)
  have gr: "groups_loop fs dir (hash_dict_of H fs similar_files) acc =
            Inr (acc @ groups_of_hash_dict fs dir (hash_dict_of H fs similar_files))"
  proof (rule groups_loop_eq)
    fix h duplicates x
    assume "(h, duplicates) \<in> set (hash_dict_of H fs similar_files)" and "x \<in> set duplicates"
    from hash_dict_of_member[OF this] here show "\<not> has_nul (path x)"
      by auto
  qed
  show ?case
    using rest hd gr by (simp add: item)
qed

lemma directories_loop_eq:
  assumes "\<And>dir files file.
             (dir, files) \<in> set files_by_directory \<Longrightarrow> file \<in> set files \<Longrightarrow>
             \<not> has_nul (path file)"
  shows "directories_loop H fs files_by_directory acc =
         Inr (acc @ all_groups H fs files_by_directory)"
  using assms
proof (induction files_by_directory arbitrary: acc)
  case Nil
  show ?case by (simp add: all_groups_def)
next
  case (Cons item files_by_directory)
  obtain dir files where item: "item = (dir, files)" by (cases item)
  have rest: "directories_loop H fs files_by_directory acc' =
              Inr (acc' @ all_groups H fs files_by_directory)" for acc'
    by (rule Cons.IH) (rule Cons.prems, auto)
  have nm: "names_loop H fs dir (name_dict_of files) acc =
            Inr (acc @ groups_of_directory H fs dir files)"
    unfolding groups_of_directory_def
  proof (rule names_loop_eq)
    fix nm similar_files x
    assume "(nm, similar_files) \<in> set (name_dict_of files)" and "x \<in> set similar_files"
    from name_dict_of_member[OF this] have "x \<in> set files"
      by simp
    with Cons.prems[of dir files x] show "\<not> has_nul (path x)"
      by (simp add: item)
  qed
  show ?case
    using rest nm by (simp add: item all_groups_def)
qed

lemma find_duplicates_eq:
  assumes "\<And>dir files file.
             (dir, files) \<in> set files_by_directory \<Longrightarrow> file \<in> set files \<Longrightarrow>
             \<not> has_nul (path file)"
  shows "find_duplicates H fs files_by_size files_by_directory progress_callback =
         Inr (all_groups H fs files_by_directory)"
  using directories_loop_eq[of files_by_directory H fs "[]"] assms
  by (simp add: find_duplicates_def)

lemma directory_index_no_nul:
  assumes "(dir, files) \<in> set (directory_index fs ps)" and "file \<in> set files"
  shows "\<not> has_nul (path file)"
proof -
  from directory_index_member[OF assms] obtain p
    where "file = catalogued fs p" and "0 < stat_size fs p"
    by auto
  then show ?thesis
    using stat_size_nul[of p fs] by auto
qed

lemma safe_progress_callback_returns:
  "fst (safe_progress_callback progress_callback v s) = None"
  by (simp add: safe_progress_callback_def isinstance_Exception_def
      split: option.splits prod.splits)

lemma duplicate_file_finder_eq:
  "duplicate_file_finder H fs pct walk progress_callback s =
     (Inr (all_groups H fs (directory_index fs (walk_paths walk))),
      fold (\<lambda>v s. snd (safe_progress_callback progress_callback v s))
        (walk_values pct walk) s)"
proof -
  let ?safe = "safe_progress_callback progress_callback"
  obtain s1 where s1: "?safe 0 s = (None, s1)"
    using safe_progress_callback_returns[of progress_callback 0 s]
    by (cases "?safe 0 s") simp
  obtain bs bd s2 where sc: "scan_directory fs pct walk (Some ?safe) s1 = (bs, bd, s2)"
    by (cases "scan_directory fs pct walk (Some ?safe) s1")
  obtain s3 where s3: "?safe 50 s2 = (None, s3)"
    using safe_progress_callback_returns[of progress_callback 50 s2]
    by (cases "?safe 50 s2") simp
  have bd: "bd = directory_index fs (walk_paths walk)"
    using scan_directory_index[of fs pct walk "Some ?safe" s1] sc by simp
  have s2: "s2 = fold (\<lambda>v s. snd (?safe v s))
                   (phase1_values pct (length (walk_paths walk)) (length (counted_paths walk))) s1"
    using scan_directory_callback[of fs pct walk ?safe s1] sc by simp
  have "find_duplicates H fs bs bd (Some ?safe) = Inr (all_groups H fs bd)"
    unfolding bd by (rule find_duplicates_eq) (rule directory_index_no_nul)
  then have "duplicate_file_finder H fs pct walk progress_callback s =
          (Inr (all_groups H fs bd), s3)"
    by (simp add: duplicate_file_finder_def Let_def s1 sc s3)
  moreover have "s3 = fold (\<lambda>v s. snd (?safe v s)) (walk_values pct walk) s"
    using s1 s2 s3 by (simp add: scan_values_def walk_values_def)
  ultimately show ?thesis
    using bd by simp
qed

section \<open>The examples, evaluated\<close>

lemmas normalize_defs =
  get_normalized_name_def splitext_def rfind_def lower_def lower_char_def
  sub_copy_of_def is_space_def match_paren_suffix_def is_digit_def strip_def

lemma normalized_report: "get_normalized_name ''report.pdf'' = ''report.pdf''"
  by (simp add: normalize_defs)

lemma normalized_copy_of_report: "get_normalized_name ''copy of report.pdf'' = ''report.pdf''"
  by (simp add: normalize_defs)

lemma normalized_report_1: "get_normalized_name ''report (1).pdf'' = ''report.pdf''"
  by (simp add: normalize_defs)

lemma normalized_a: "get_normalized_name ''a.txt'' = ''a.txt''"
  by (simp add: normalize_defs)

lemma normalized_a_1: "get_normalized_name ''a (1).txt'' = ''a.txt''"
  by (simp add: normalize_defs)

lemmas scan_defs =
  walk_paths_def directory_index_def stat_size_def os_path_join_def catalogued_def
  FileInfo_init_def all_groups_def groups_of_directory_def name_dict_of_def hash_dict_of_def
  hash_value_def hashed_def full_digest_def groups_of_hash_dict_def group_of_def size_value_def
  walk_values_def counted_paths_def has_nul_def scan_values_def phase1_values_def
  safe_progress_callback_def upt_rec

lemma reports_scan:
  "duplicate_file_finder hex_of_bytes fs_reports progress_percent walk_reports (Some record_progress) [] =
     (Inr [\<lparr>paths = [os_path_join ''/d'' ''report.pdf'',
                     os_path_join ''/d'' ''copy of report.pdf''],
           size_bytes = 1, directory = ''/d''\<rparr>],
      [0, 25, 50, 50])"
  by (simp add: duplicate_file_finder_eq scan_defs walk_reports_def fs_reports.rep_eq plain_file_def
      normalized_report normalized_copy_of_report progress_percent_Suc_0_2 progress_percent_2_2 record_progress_def
      numeral_2_eq_2[symmetric])

lemma locked_scan:
  "duplicate_file_finder hex_of_bytes fs_locked progress_percent walk_locked (Some record_progress) [] =
     (Inr [\<lparr>paths = [os_path_join ''/d'' ''a.txt'', os_path_join ''/d'' ''a (1).txt''],
           size_bytes = 3, directory = ''/d''\<rparr>],
      [0, 25, 50, 50])"
  by (simp add: duplicate_file_finder_eq scan_defs walk_locked_def fs_locked.rep_eq locked_file_def
      normalized_a normalized_a_1 progress_percent_Suc_0_2 progress_percent_2_2 record_progress_def
      numeral_2_eq_2[symmetric])

section \<open>What every group is made of\<close>

lemma all_groups_member:
  assumes "g \<in> set (all_groups H fs files_by_directory)"
  shows "\<exists>dir files nm similar_files h duplicates.
           (dir, files) \<in> set files_by_directory \<and>
           (nm, similar_files) \<in> set (name_dict_of files) \<and>
           (h, duplicates) \<in> set (hash_dict_of H fs similar_files) \<and>
           1 < length duplicates \<and> g = group_of fs dir duplicates"
proof -
  from assms obtain dir files where d: "(dir, files) \<in> set files_by_directory"
    and g1: "g \<in> set (groups_of_directory H fs dir files)"
    by (auto simp: all_groups_def)
  from g1 obtain nm similar_files where n: "(nm, similar_files) \<in> set (name_dict_of files)"
    and g2: "g \<in> set (groups_of_hash_dict fs dir (hash_dict_of H fs similar_files))"
    by (auto simp: groups_of_directory_def split: if_splits)
  from g2 obtain h duplicates where "(h, duplicates) \<in> set (hash_dict_of H fs similar_files)"
    and "1 < length duplicates" and "g = group_of fs dir duplicates"
    by (auto simp: groups_of_hash_dict_def)
  with d n show ?thesis by blast
qed

lemma scan_group_member:
  assumes "g \<in> set (all_groups H fs (directory_index fs ps))" and "p \<in> set (paths g)"
  shows "p \<in> set ps \<and> parent p = directory g \<and> 0 < stat_size fs p"
proof -
  from all_groups_member[OF assms(1)] obtain dir files nm similar_files h duplicates where
    d: "(dir, files) \<in> set (directory_index fs ps)"
    and n: "(nm, similar_files) \<in> set (name_dict_of files)"
    and hd: "(h, duplicates) \<in> set (hash_dict_of H fs similar_files)"
    and g: "g = group_of fs dir duplicates"
    by blast
  from assms(2) g obtain fi where fi: "fi \<in> set duplicates" and p: "p = path fi"
    by (auto simp: group_of_def)
  from hash_dict_of_member[OF hd fi] obtain fi0 where
    fi0: "fi0 \<in> set similar_files" and "fi = hashed H fs fi0"
    by blast
  then have p0: "p = path fi0"
    using p by simp
  from name_dict_of_member[OF n fi0] have "fi0 \<in> set files"
    by simp
  from directory_index_member[OF d this] obtain q where
    "q \<in> set ps" "fi0 = catalogued fs q" "parent q = dir" "0 < stat_size fs q"
    by blast
  with p0 g show ?thesis
    by (simp add: group_of_def)
qed

text \<open>
  Claim C4. Every scan returns a list of groups, and in each of them every member is a
  file of the group's directory: two members of one group are never in different
  directories, whatever their contents.
\<close>

theorem groups_stay_in_one_directory:
  "\<exists>groups. fst (duplicate_file_finder H fs pct walk progress_callback s) = Inr groups \<and>
     (\<forall>g \<in> set groups.
        (\<forall>p \<in> set (paths g). parent p = directory g) \<and>
        (\<forall>p \<in> set (paths g). \<forall>q \<in> set (paths g). parent p = parent q))"
proof -
  let ?groups = "all_groups H fs (directory_index fs (walk_paths walk))"
  have "fst (duplicate_file_finder H fs pct walk progress_callback s) = Inr ?groups"
    by (simp add: duplicate_file_finder_eq)
  moreover have "\<forall>g \<in> set ?groups. \<forall>p \<in> set (paths g). parent p = directory g"
    using scan_group_member by blast
  ultimately show ?thesis
    by (intro exI[of _ ?groups]) simp
qed

theorem groups_stay_in_one_directory_witness:
  "fst (duplicate_file_finder hex_of_bytes fs_reports progress_percent walk_reports
         (Some record_progress) []) =
     Inr [\<lparr>paths = [os_path_join ''/d'' ''report.pdf'',
                    os_path_join ''/d'' ''copy of report.pdf''],
          size_bytes = 1, directory = ''/d''\<rparr>] \<and>
   parent (os_path_join ''/d'' ''report.pdf'') = ''/d'' \<and>
   parent (os_path_join ''/d'' ''copy of report.pdf'') = parent (os_path_join ''/d'' ''report.pdf'')"
  using groups_stay_in_one_directory[of hex_of_bytes fs_reports progress_percent walk_reports
      "Some record_progress" "[]"]
  by (simp add: reports_scan)

section \<open>No path is reported twice\<close>

lemma bucket_paths_mono:
  assumes "\<And>k vs. (k, vs) \<in> set d \<Longrightarrow> mset (concat (map paths (F (k, vs)))) \<subseteq># mset (map path vs)"
  shows "mset (concat (map paths (concat (map F d)))) \<subseteq># mset (map path (dict_values d))"
  using assms
proof (induction d)
  case Nil
  show ?case by (simp add: dict_values_def)
next
  case (Cons item d)
  obtain k vs where item: "item = (k, vs)" by (cases item)
  have 1: "mset (concat (map paths (F (k, vs)))) \<subseteq># mset (map path vs)"
    using Cons.prems[of k vs] by (simp add: item)
  have 2: "mset (concat (map paths (concat (map F d)))) \<subseteq># mset (map path (dict_values d))"
    using Cons.IH Cons.prems by simp
  have "mset (concat (map paths (concat (map F (item # d))))) =
        mset (concat (map paths (F (k, vs)))) + mset (concat (map paths (concat (map F d))))"
    by (simp add: item)
  moreover have "mset (map path (dict_values (item # d))) =
        mset (map path vs) + mset (map path (dict_values d))"
    by (simp add: item dict_values_def)
  ultimately show ?case
    using subset_mset.add_mono[OF 1 2] by simp
qed

lemma groups_of_hash_dict_paths:
  "mset (concat (map paths (groups_of_hash_dict fs dir hash_dict))) \<subseteq>#
   mset (map path (dict_values hash_dict))"
proof -
  have "groups_of_hash_dict fs dir hash_dict =
        concat (map (\<lambda>(h, duplicates).
                       if 1 < length duplicates then [group_of fs dir duplicates] else [])
                  hash_dict)"
    by (induction hash_dict) (auto simp: groups_of_hash_dict_def)
  moreover have
    "mset (concat (map paths (concat (map (\<lambda>(h, duplicates).
         if 1 < length duplicates then [group_of fs dir duplicates] else []) hash_dict)))) \<subseteq>#
     mset (map path (dict_values hash_dict))"
    by (rule bucket_paths_mono) (simp add: group_of_def)
  ultimately show ?thesis by simp
qed

lemma groups_of_directory_paths:
  "mset (concat (map paths (groups_of_directory H fs dir files))) \<subseteq># mset (map path files)"
proof -
  have "mset (concat (map paths (groups_of_directory H fs dir files))) \<subseteq>#
        mset (map path (dict_values (name_dict_of files)))"
    unfolding groups_of_directory_def
  proof (rule bucket_paths_mono)
    fix nm similar_files
    show "mset (concat (map paths
             (case (nm, similar_files) of
                (normalized_name, similar_files) \<Rightarrow>
                  if 1 < length similar_files
                  then groups_of_hash_dict fs dir (hash_dict_of H fs similar_files)
                  else []))) \<subseteq>#
          mset (map path similar_files)"
      using groups_of_hash_dict_paths[of fs dir "hash_dict_of H fs similar_files"]
        hash_dict_of_paths[of H fs similar_files]
      by simp
  qed
  also have "mset (map path (dict_values (name_dict_of files))) = mset (map path files)"
    using name_dict_of_mset[of files] by (metis mset_map)
  finally show ?thesis .
qed

lemma all_groups_paths:
  "mset (concat (map paths (all_groups H fs files_by_directory))) \<subseteq>#
   mset (map path (dict_values files_by_directory))"
  unfolding all_groups_def
proof (rule bucket_paths_mono)
  fix dir files
  show "mset (concat (map paths
           (case (dir, files) of (dir, files) \<Rightarrow> groups_of_directory H fs dir files))) \<subseteq>#
        mset (map path files)"
    using groups_of_directory_paths[of H fs dir files] by simp
qed

lemma distinct_iff_count: "distinct xs \<longleftrightarrow> (\<forall>a. count (mset xs) a \<le> 1)"
proof (induction xs)
  case Nil
  show ?case by simp
next
  case (Cons x xs)
  have "(\<forall>a. count (mset (x # xs)) a \<le> 1) \<longleftrightarrow>
        count (mset xs) x = 0 \<and> (\<forall>a. count (mset xs) a \<le> 1)"
  proof
    assume h: "\<forall>a. count (mset (x # xs)) a \<le> 1"
    then have "count (mset (x # xs)) x \<le> 1" by blast
    then have "count (mset xs) x = 0" by simp
    moreover have "count (mset xs) a \<le> 1" for a
    proof -
      have "count (mset xs) a \<le> count (mset (x # xs)) a" by simp
      also have "\<dots> \<le> 1" using h by blast
      finally show ?thesis .
    qed
    ultimately show "count (mset xs) x = 0 \<and> (\<forall>a. count (mset xs) a \<le> 1)" by blast
  next
    assume "count (mset xs) x = 0 \<and> (\<forall>a. count (mset xs) a \<le> 1)"
    then show "\<forall>a. count (mset (x # xs)) a \<le> 1" by simp
  qed
  then show ?case
    using Cons by (simp add: count_eq_zero_iff)
qed

lemma distinct_of_subset:
  assumes "mset xs \<subseteq># mset ys" and "distinct ys"
  shows "distinct xs"
proof -
  have "count (mset xs) a \<le> 1" for a
  proof -
    have "count (mset xs) a \<le> count (mset ys) a"
      using assms(1) by (rule mset_subset_eq_count)
    also have "\<dots> \<le> 1"
      using assms(2) by (simp only: distinct_iff_count)
    finally show ?thesis .
  qed
  then show ?thesis
    by (simp only: distinct_iff_count) simp
qed

text \<open>
  Claim C10. \<open>os.walk\<close> meets every file once, so the paths of a walk are distinct.
  Then the member lists of all the groups of a scan, put one after the other, have no
  path twice: a path is in at most one group, and once in it.
\<close>

theorem groups_are_disjoint:
  assumes "distinct (walk_paths walk)"
  shows "\<exists>groups. fst (duplicate_file_finder H fs pct walk progress_callback s) = Inr groups \<and>
           distinct (concat (map paths groups))"
proof -
  let ?index = "directory_index fs (walk_paths walk)"
  have "mset (concat (map paths (all_groups H fs ?index))) \<subseteq># mset (map path (dict_values ?index))"
    by (rule all_groups_paths)
  also have "\<dots> \<subseteq># mset (walk_paths walk)"
    by (rule directory_index_paths)
  finally have "distinct (concat (map paths (all_groups H fs ?index)))"
    using assms by (rule distinct_of_subset)
  then show ?thesis
    by (simp add: duplicate_file_finder_eq)
qed

theorem groups_are_disjoint_witness:
  "distinct (walk_paths walk_reports) \<and>
   (\<exists>groups. fst (duplicate_file_finder hex_of_bytes fs_reports progress_percent walk_reports
                    (Some record_progress) []) = Inr groups \<and>
      groups \<noteq> [] \<and> distinct (concat (map paths groups)))"
proof -
  have d: "distinct (walk_paths walk_reports)"
    by (simp add: walk_paths_def walk_reports_def os_path_join_def)
  from groups_are_disjoint[OF d, of hex_of_bytes fs_reports progress_percent "Some record_progress" "[]"]
  show ?thesis
    using d by (auto simp: reports_scan)
qed

section \<open>Two copies of one file\<close>

text \<open>
  Claim C1, as stated, for every directory that holds exactly the two files, with the
  same content: it fails when both files are empty, because \<open>scan_directory\<close> leaves
  files of size 0 out of the catalogue, and it fails when one of the two cannot be
  opened, because that one gets the empty digest and the other does not.
\<close>

theorem two_copies_not_grouped_counterexample:
  "file_at fs_empty_reports (os_path_join ''/d'' ''report.pdf'') = Some (plain_file []) \<and>
   file_at fs_empty_reports (os_path_join ''/d'' ''copy of report.pdf'') = Some (plain_file []) \<and>
   fst (duplicate_file_finder hex_of_bytes fs_empty_reports
          progress_percent walk_reports (Some record_progress) []) = Inr [] \<and>
   file_at fs_locked_copy (os_path_join ''/d'' ''report.pdf'') = Some (plain_file [0x58]) \<and>
   file_at fs_locked_copy (os_path_join ''/d'' ''copy of report.pdf'') =
     Some (locked_file [0x58]) \<and>
   fst (duplicate_file_finder hex_of_bytes fs_locked_copy
          progress_percent walk_reports (Some record_progress) []) = Inr []"
  by (simp add: duplicate_file_finder_eq scan_defs walk_reports_def plain_file_def
      fs_empty_reports.rep_eq fs_locked_copy.rep_eq
      locked_file_def normalized_report normalized_copy_of_report hex_of_bytes_def hex_digit_def)

text \<open>
  Claim C1, amended. Let a directory hold exactly two files, \<open>report.pdf\<close> and either
  \<open>copy of report.pdf\<close> or \<open>report (1).pdf\<close>, met by the walk in either order, both
  with the same content, which is not empty, and both such that their size can be
  read and they can be opened and read. Then the two names have the same normalized
  name, and \<open>find_duplicates\<close>, on the catalogue \<open>scan_directory\<close> builds, returns exactly
  one group: its members are the two files, in the order of the walk, its size is the
  length of the content, its directory is that directory. The whole scan returns the
  same list.
\<close>

theorem two_copies_form_one_group:
  assumes "other = ''copy of report.pdf'' \<or> other = ''report (1).pdf''"
    and "ns = [''report.pdf'', other] \<or> ns = [other, ''report.pdf'']"
    and "file_at fs (os_path_join d ''report.pdf'') = Some (plain_file c)"
    and "file_at fs (os_path_join d other) = Some (plain_file c)"
    and "c \<noteq> []"
  shows "get_normalized_name other = get_normalized_name ''report.pdf'' \<and>
         find_duplicates H fs
           (fst (scan_directory fs pct [(d, ns)] progress_callback s))
           (fst (snd (scan_directory fs pct [(d, ns)] progress_callback s)))
           progress_callback' =
           Inr [\<lparr>paths = map (os_path_join d) ns, size_bytes = length c, directory = d\<rparr>] \<and>
         fst (duplicate_file_finder H fs pct [(d, ns)] progress_callback s) =
           Inr [\<lparr>paths = map (os_path_join d) ns, size_bytes = length c, directory = d\<rparr>]"
proof -
  have nn: "get_normalized_name other = ''report.pdf''"
    using assms(1) normalized_copy_of_report normalized_report_1 by blast
  have "all_groups H fs (directory_index fs (walk_paths [(d, ns)])) =
          [\<lparr>paths = map (os_path_join d) ns, size_bytes = length c, directory = d\<rparr>]"
    using assms(2)
  proof
    assume "ns = [''report.pdf'', other]"
    then show ?thesis
      using assms(3-5) nn
      by (simp add: scan_defs plain_file_def normalized_report)
  next
    assume "ns = [other, ''report.pdf'']"
    then show ?thesis
      using assms(3-5) nn
      by (simp add: scan_defs plain_file_def normalized_report)
  qed
  moreover have "find_duplicates H fs
           (fst (scan_directory fs pct [(d, ns)] progress_callback s))
           (fst (snd (scan_directory fs pct [(d, ns)] progress_callback s)))
           progress_callback' =
         Inr (all_groups H fs (directory_index fs (walk_paths [(d, ns)])))"
    unfolding scan_directory_index
    by (rule find_duplicates_eq) (rule directory_index_no_nul)
  ultimately show ?thesis
    by (simp add: nn normalized_report duplicate_file_finder_eq)
qed

theorem two_copies_form_one_group_witness:
  "(''copy of report.pdf'' = ''copy of report.pdf'' \<or> ''copy of report.pdf'' = ''report (1).pdf'') \<and>
   ([''report.pdf'', ''copy of report.pdf''] = [''report.pdf'', ''copy of report.pdf''] \<or>
    [''report.pdf'', ''copy of report.pdf''] = [''copy of report.pdf'', ''report.pdf'']) \<and>
   file_at fs_reports (os_path_join ''/d'' ''report.pdf'') = Some (plain_file [0x58]) \<and>
   file_at fs_reports (os_path_join ''/d'' ''copy of report.pdf'') = Some (plain_file [0x58]) \<and>
   [0x58 :: 8 word] \<noteq> [] \<and>
   fst (duplicate_file_finder hex_of_bytes fs_reports progress_percent
          [(''/d'', [''report.pdf'', ''copy of report.pdf''])] (Some record_progress) []) =
     Inr [\<lparr>paths = map (os_path_join ''/d'') [''report.pdf'', ''copy of report.pdf''],
          size_bytes = length [0x58 :: 8 word], directory = ''/d''\<rparr>]"
proof -
  have a: "''copy of report.pdf'' = ''copy of report.pdf'' \<or> ''copy of report.pdf'' = ''report (1).pdf''"
    by simp
  have b: "[''report.pdf'', ''copy of report.pdf''] = [''report.pdf'', ''copy of report.pdf''] \<or>
    [''report.pdf'', ''copy of report.pdf''] = [''copy of report.pdf'', ''report.pdf'']"
    by simp
  have c: "file_at fs_reports (os_path_join ''/d'' ''report.pdf'') = Some (plain_file [0x58])"
    by (simp add: fs_reports.rep_eq os_path_join_def)
  have d: "file_at fs_reports (os_path_join ''/d'' ''copy of report.pdf'') =
           Some (plain_file [0x58])"
    by (simp add: fs_reports.rep_eq os_path_join_def)
  have e: "[0x58 :: 8 word] \<noteq> []"
    by simp
  note t = two_copies_form_one_group[OF a b c d e,
      where H = hex_of_bytes and pct = progress_percent and progress_callback = "Some record_progress"
        and s = "[]" and progress_callback' = "None :: nat list callback option"]
  from a b c d e t[THEN conjunct2, THEN conjunct2] show ?thesis
    by (intro conjI)
qed

section \<open>What the members of a group share\<close>

text \<open>
  The members of a group have the same normalized name and the same value of
  \<open>full_hash()\<close>: the digest of the content for a file that can be read, the empty
  string for one that cannot.
\<close>

lemma group_members_share_name_and_digest:
  assumes "g \<in> set (all_groups H fs (directory_index fs ps))"
    and "p \<in> set (paths g)" and "q \<in> set (paths g)"
  shows "get_normalized_name (name p) = get_normalized_name (name q) \<and>
         full_digest H fs p = full_digest H fs q"
proof -
  from all_groups_member[OF assms(1)] obtain dir files nm similar_files h duplicates where
    d: "(dir, files) \<in> set (directory_index fs ps)"
    and n: "(nm, similar_files) \<in> set (name_dict_of files)"
    and hd: "(h, duplicates) \<in> set (hash_dict_of H fs similar_files)"
    and g: "g = group_of fs dir duplicates"
    by blast
  have key: "get_normalized_name (name r) = nm \<and> full_digest H fs r = h"
    if "r \<in> set (paths g)" for r
  proof -
    from that g obtain fi where fi: "fi \<in> set duplicates" and r: "r = path fi"
      by (auto simp: group_of_def)
    from hash_dict_of_member[OF hd fi] obtain fi0 where
      fi0: "fi0 \<in> set similar_files" and eq: "fi = hashed H fs fi0" and h: "h = hash_value H fs fi0"
      by blast
    from name_dict_of_member[OF n fi0] have
      mem: "fi0 \<in> set files" and nm: "get_normalized_name (name (path fi0)) = nm"
      by simp_all
    from directory_index_member[OF d mem] obtain r0 where "fi0 = catalogued fs r0"
      by blast
    then have "hash_value H fs fi0 = full_digest H fs (path fi0)"
      by (simp add: hash_value_def catalogued_def FileInfo_init_def)
    with r eq h nm show ?thesis
      by simp
  qed
  from key[OF assms(2)] key[OF assms(3)] show ?thesis
    by simp
qed

text \<open>
  Claim C2. The code does not do what the claim says when neither file can be opened.
  In \<open>/d\<close>, \<open>a.txt\<close> and \<open>a (1).txt\<close> have the same normalized name and different
  contents; \<open>os.path.getsize\<close> succeeds on both and \<open>open\<close> fails on both. Both get the
  empty string as their digest, and the scan returns one group with the two of them.
\<close>

theorem unreadable_files_with_different_content_grouped:
  "get_normalized_name ''a.txt'' = get_normalized_name ''a (1).txt'' \<and>
   map_option content (file_at fs_locked (os_path_join ''/d'' ''a.txt'')) = Some [0x61, 0x62, 0x63] \<and>
   map_option content (file_at fs_locked (os_path_join ''/d'' ''a (1).txt'')) =
     Some [0x31, 0x32, 0x33, 0x34, 0x35] \<and>
   map paths (projr (fst (duplicate_file_finder hex_of_bytes fs_locked progress_percent walk_locked
                            (Some record_progress) []))) =
     [ [os_path_join ''/d'' ''a.txt'', os_path_join ''/d'' ''a (1).txt''] ]"
proof -
  have "map_option content (file_at fs_locked (os_path_join ''/d'' ''a.txt'')) = Some [0x61, 0x62, 0x63]"
    and "map_option content (file_at fs_locked (os_path_join ''/d'' ''a (1).txt'')) =
      Some [0x31, 0x32, 0x33, 0x34, 0x35]"
    by (simp_all add: fs_locked.rep_eq locked_file_def os_path_join_def)
  then show ?thesis
    by (simp add: locked_scan normalized_a normalized_a_1)
qed

text \<open>
  Claim C3. On the same input the group's recorded size is 3, the size of its first
  member, and the size of its second member is 5.
\<close>

theorem unreadable_files_of_different_size_grouped:
  "fst (duplicate_file_finder hex_of_bytes fs_locked progress_percent walk_locked
          (Some record_progress) []) =
     Inr [\<lparr>paths = [os_path_join ''/d'' ''a.txt'', os_path_join ''/d'' ''a (1).txt''],
           size_bytes = 3, directory = ''/d''\<rparr>] \<and>
   os_path_getsize fs_locked (os_path_join ''/d'' ''a.txt'') = Inr 3 \<and>
   os_path_getsize fs_locked (os_path_join ''/d'' ''a (1).txt'') = Inr 5"
proof -
  have "os_path_getsize fs_locked (os_path_join ''/d'' ''a.txt'') = Inr 3"
    and "os_path_getsize fs_locked (os_path_join ''/d'' ''a (1).txt'') = Inr 5"
    by (simp_all add: os_path_getsize_def has_nul_def fs_locked.rep_eq locked_file_def
          os_path_join_def)
  then show ?thesis
    by (simp add: locked_scan)
qed

section \<open>Wasted space\<close>

lemma fold_display_group:
  "fold display_group groups d =
     \<lparr>current_group = current_group d + length groups,
      total_wasted_space = total_wasted_space d + sum_list (map wasted_space groups)\<rparr>"
  by (induction groups arbitrary: d) (simp_all add: display_group_def)

text \<open>
  Claim C5. For a group of recorded size \<open>S\<close> with \<open>N\<close> member paths,
  \<open>display_duplicates\<close> computes the wasted space \<open>S * (N - 1)\<close>, and the total it shows
  is the sum of these numbers over all the groups it is given.
\<close>

theorem wasted_space_is_size_times_copies:
  "wasted_space g = int (size_bytes g) * (int (length (paths g)) - 1) \<and>
   total_wasted_space (snd (display_duplicates groups)) =
     (\<Sum>g \<leftarrow> groups. int (size_bytes g) * (int (length (paths g)) - 1)) \<and>
   current_group (snd (display_duplicates groups)) = length groups"
proof -
  have eq: "map wasted_space groups =
        map (\<lambda>g. int (size_bytes g) * (int (length (paths g)) - 1)) groups"
    by (simp add: wasted_space_def)
  show ?thesis
    by (simp add: display_duplicates_def fold_display_group eq wasted_space_def)
qed

section \<open>Progress and cancellation\<close>

lemma safe_thread_callback:
  "snd (safe_progress_callback (Some thread_progress_callback) v t) =
     (if (case stop_at t of None \<Rightarrow> True | Some k \<Rightarrow> flag_reads t < k)
      then t\<lparr>flag_reads := flag_reads t + 1, emitted := emitted t @ [progress_updated v]\<rparr>
      else t\<lparr>flag_reads := flag_reads t + 1\<rparr>)"
  by (simp add: safe_progress_callback_def thread_progress_callback_def read_is_running_def
      emit_def isinstance_Exception_def)

lemma fold_thread_callback:
  "fold (\<lambda>v t. snd (safe_progress_callback (Some thread_progress_callback) v t)) vs t =
     t\<lparr>flag_reads := flag_reads t + length vs,
       emitted := emitted t @
         map progress_updated
           (case stop_at t of None \<Rightarrow> vs | Some k \<Rightarrow> take (k - flag_reads t) vs)\<rparr>"
proof (induction vs arbitrary: t)
  case Nil
  show ?case by (simp split: option.splits)
next
  case (Cons v vs)
  let ?f = "\<lambda>v t. snd (safe_progress_callback (Some thread_progress_callback) v t)"
  have unfold: "fold ?f (v # vs) t = fold ?f vs (?f v t)"
    by simp
  show ?case
  proof (cases "case stop_at t of None \<Rightarrow> True | Some k \<Rightarrow> flag_reads t < k")
    case True
    let ?t' = "t\<lparr>flag_reads := flag_reads t + 1, emitted := emitted t @ [progress_updated v]\<rparr>"
    have "?f v t = ?t'"
      using True by (simp add: safe_thread_callback)
    then have "fold ?f (v # vs) t = fold ?f vs ?t'"
      by (simp only: unfold)
    also have "\<dots> = ?t'\<lparr>flag_reads := flag_reads ?t' + length vs,
         emitted := emitted ?t' @
           map progress_updated
             (case stop_at ?t' of None \<Rightarrow> vs | Some k \<Rightarrow> take (k - flag_reads ?t') vs)\<rparr>"
      by (rule Cons)
    also have "\<dots> = t\<lparr>flag_reads := flag_reads t + length (v # vs),
         emitted := emitted t @
           map progress_updated
             (case stop_at t of None \<Rightarrow> v # vs | Some k \<Rightarrow> take (k - flag_reads t) (v # vs))\<rparr>"
    proof (cases "stop_at t")
      case None
      then show ?thesis by simp
    next
      case (Some k)
      with True have "k - flag_reads t = Suc (k - (flag_reads t + 1))"
        by simp
      then have "take (k - flag_reads t) (v # vs) = v # take (k - (flag_reads t + 1)) vs"
        by (simp only: take_Suc_Cons)
      with Some show ?thesis by simp
    qed
    finally show ?thesis .
  next
    case False
    then obtain k where k: "stop_at t = Some k" and le: "k \<le> flag_reads t"
      by (cases "stop_at t") auto
    let ?t' = "t\<lparr>flag_reads := flag_reads t + 1\<rparr>"
    have "?f v t = ?t'"
      using False by (simp add: safe_thread_callback)
    then have "fold ?f (v # vs) t = fold ?f vs ?t'"
      by (simp only: unfold)
    also have "\<dots> = ?t'\<lparr>flag_reads := flag_reads ?t' + length vs,
         emitted := emitted ?t' @
           map progress_updated
             (case stop_at ?t' of None \<Rightarrow> vs | Some k \<Rightarrow> take (k - flag_reads ?t') vs)\<rparr>"
      by (rule Cons)
    also have "\<dots> = t\<lparr>flag_reads := flag_reads t + length (v # vs),
         emitted := emitted t @
           map progress_updated
             (case stop_at t of None \<Rightarrow> v # vs | Some k \<Rightarrow> take (k - flag_reads t) (v # vs))\<rparr>"
      using k le by simp
    finally show ?thesis .
  qed
qed

lemma record_progress_fold:
  "fold (\<lambda>v s. snd (safe_progress_callback (Some record_progress) v s)) vs vs0 = vs0 @ vs"
  by (induction vs arbitrary: vs0)
     (simp_all add: safe_progress_callback_def record_progress_def)

lemma run_missing_directory:
  "emitted (run H fs pct False walk t) =
     emitted t @ [error_occurred (OSError FileNotFoundError), duplicates_found []]"
  by (simp add: run_def emit_def isinstance_InterruptedError_def)

lemma run_existing_directory:
  "emitted (run H fs pct True walk t) =
     emitted t @
     map progress_updated
       (case stop_at t of
          None \<Rightarrow> walk_values pct walk
        | Some k \<Rightarrow> take (k - flag_reads t) (walk_values pct walk)) @
     (if (case stop_at t of
            None \<Rightarrow> True
          | Some k \<Rightarrow> flag_reads t + length (walk_values pct walk) < k)
      then [duplicates_found (all_groups H fs (directory_index fs (walk_paths walk)))]
      else [])"
  by (simp add: run_def duplicate_file_finder_eq fold_thread_callback read_is_running_def
      emit_def split: option.splits)

text \<open>
  A run that is stopped before it reads its flag for the last time emits some of the
  progress values and nothing else, neither a result nor an error.
\<close>

lemma stopped_run_delivers_no_result:
  assumes "stop_at t = Some k"
    and "k \<le> flag_reads t + length (walk_values pct walk)"
  shows "emitted (run H fs pct True walk t) =
           emitted t @
           map progress_updated
             (take (k - flag_reads t) (walk_values pct walk))"
  using assms by (simp add: run_existing_directory)

text \<open>
  Claim C6. The code does not do what the claim says. In the first scan below
  \<open>stop()\<close> is called after the fourth read of the flag, that is, while
  \<open>find_duplicates\<close> is at work: the flag has been read four times when the scan
  returns, once for each of the values 0, 25, 50 and 50 reported before grouping, so
  grouping has not read it, and the scan returns the complete list of groups. In the
  second scan \<open>stop()\<close> is called after the first read: each later call of the callback
  raises \<open>InterruptedError\<close>, \<open>safe_progress_callback\<close> catches it, and the scan again
  goes on to the end and returns the complete list. The thread then emits no
  \<open>duplicates_found\<close> at all, neither with the groups nor with the empty list.
\<close>

theorem stop_does_not_abort_the_scan:
  "duplicate_file_finder hex_of_bytes fs_reports progress_percent walk_reports
     (Some thread_progress_callback) \<lparr>stop_at = Some 4, flag_reads = 0, emitted = []\<rparr> =
     (Inr [\<lparr>paths = [os_path_join ''/d'' ''report.pdf'',
                     os_path_join ''/d'' ''copy of report.pdf''],
           size_bytes = 1, directory = ''/d''\<rparr>],
      \<lparr>stop_at = Some 4, flag_reads = 4,
       emitted = [progress_updated 0, progress_updated 25, progress_updated 50,
                  progress_updated 50]\<rparr>) \<and>
   duplicate_file_finder hex_of_bytes fs_reports progress_percent walk_reports
     (Some thread_progress_callback) \<lparr>stop_at = Some 1, flag_reads = 0, emitted = []\<rparr> =
     (Inr [\<lparr>paths = [os_path_join ''/d'' ''report.pdf'',
                     os_path_join ''/d'' ''copy of report.pdf''],
           size_bytes = 1, directory = ''/d''\<rparr>],
      \<lparr>stop_at = Some 1, flag_reads = 4, emitted = [progress_updated 0]\<rparr>) \<and>
   emitted (run hex_of_bytes fs_reports progress_percent True walk_reports
              \<lparr>stop_at = Some 4, flag_reads = 0, emitted = []\<rparr>) =
     [progress_updated 0, progress_updated 25, progress_updated 50, progress_updated 50] \<and>
   emitted (run hex_of_bytes fs_reports progress_percent True walk_reports
              \<lparr>stop_at = Some 1, flag_reads = 0, emitted = []\<rparr>) =
     [progress_updated 0]"
proof -
  have groups: "all_groups hex_of_bytes fs_reports (directory_index fs_reports (walk_paths walk_reports)) =
      [\<lparr>paths = [os_path_join ''/d'' ''report.pdf'',
                 os_path_join ''/d'' ''copy of report.pdf''],
        size_bytes = 1, directory = ''/d''\<rparr>]"
    using reports_scan by (simp add: duplicate_file_finder_eq)
  have vals: "walk_values progress_percent walk_reports = [0, 25, 50, 50]"
    using reports_scan by (simp add: duplicate_file_finder_eq record_progress_fold)
  show ?thesis
    by (simp add: duplicate_file_finder_eq run_existing_directory safe_thread_callback groups vals)
qed
lemma phase1_values_sorted:
  "sorted (phase1_values progress_percent n m)"
proof -
  let ?ks = "filter (\<lambda>k. k mod max 1 (n div 100) = 0) [1..<m + 1]"
  have s: "sorted_wrt (\<le>) ?ks"
    by (rule sorted_wrt_filter) (rule sorted_upt)
  have m: "progress_percent a n \<le> progress_percent b n"
    if "a \<in> set ?ks" "b \<in> set ?ks" "a \<le> b" for a b
    using that(3) by (rule progress_percent_mono)
  have "sorted_wrt (\<lambda>a b. progress_percent a n \<le> progress_percent b n) ?ks"
    by (rule sorted_wrt_mono_rel[OF m s])
  then show ?thesis
    by (simp add: phase1_values_def sorted_map)
qed

lemma phase1_values_bounded:
  assumes "m \<le> n" and "v \<in> set (phase1_values progress_percent n m)"
  shows "v \<le> 50"
proof -
  from assms(2) obtain k where v: "v = progress_percent k n" and "k \<le> m"
    by (auto simp: phase1_values_def)
  with assms(1) have "k \<le> n"
    by simp
  then show ?thesis
    unfolding v by (rule progress_percent_le_50)
qed

lemma counted_paths_le: "length (counted_paths walk) \<le> length (walk_paths walk)"
  by (simp add: counted_paths_def)

text \<open>
  Claim C7, as stated: a scan whose grouping completes reports 0, 25, 50 and 50 and
  not 100; and a run on a directory that does not exist, in which no grouping takes
  place, has the progress bar set to 100.
\<close>

theorem progress_100_counterexample:
  "fst (duplicate_file_finder hex_of_bytes fs_reports progress_percent walk_reports
          (Some record_progress) []) =
     Inr [\<lparr>paths = [os_path_join ''/d'' ''report.pdf'',
                    os_path_join ''/d'' ''copy of report.pdf''],
          size_bytes = 1, directory = ''/d''\<rparr>] \<and>
   snd (duplicate_file_finder hex_of_bytes fs_reports progress_percent walk_reports
          (Some record_progress) []) = [0, 25, 50, 50] \<and>
   concat (map bar_values
     (emitted (run hex_of_bytes fs_reports progress_percent False walk_reports
                 \<lparr>stop_at = None, flag_reads = 0, emitted = []\<rparr>))) = [100]"
  by (simp add: reports_scan run_missing_directory display_duplicates_def)

text \<open>
  Claim C7, amended. Grouping reports no progress value. With the progress value the
  code computes, \<open>int((processed_files / total_files) * 50)\<close> in floating point, every
  scan reports 0, then the values of phase 1, then 50, which it reports before
  grouping starts, and nothing after that. These values are non-decreasing and at most
  50, so no scan reports 100. The progress bar is set to 100 by the slot that receives
  \<open>duplicates_found\<close>: at the end of a run that is not stopped, after all the values of
  the scan, and also at the end of a run that fails because the directory does not
  exist.
\<close>

theorem scan_reports_0_to_50:
  "snd (duplicate_file_finder H fs progress_percent walk (Some record_progress) []) =
     0 # phase1_values progress_percent (length (walk_paths walk))
           (length (counted_paths walk)) @ [50] \<and>
   sorted (snd (duplicate_file_finder H fs progress_percent walk (Some record_progress) [])) \<and>
   (\<forall>v \<in> set (snd (duplicate_file_finder H fs progress_percent walk
                      (Some record_progress) [])). v \<le> 50) \<and>
   concat (map bar_values
     (emitted (run H fs progress_percent True walk
                 \<lparr>stop_at = None, flag_reads = 0, emitted = []\<rparr>))) =
     snd (duplicate_file_finder H fs progress_percent walk (Some record_progress) []) @ [100] \<and>
   concat (map bar_values
     (emitted (run H fs progress_percent False walk
                 \<lparr>stop_at = None, flag_reads = 0, emitted = []\<rparr>))) =
     [100]"
proof -
  let ?p = "phase1_values progress_percent (length (walk_paths walk))
              (length (counted_paths walk))"
  let ?vs = "snd (duplicate_file_finder H fs progress_percent walk (Some record_progress) [])"
  have w: "walk_values progress_percent walk = 0 # ?p @ [50]"
    by (simp add: walk_values_def scan_values_def)
  have a: "?vs = 0 # ?p @ [50]"
    unfolding duplicate_file_finder_eq snd_conv record_progress_fold w
    by simp
  have s: "sorted ?p"
    by (rule phase1_values_sorted)
  have b: "\<forall>v \<in> set ?p. v \<le> 50"
    using phase1_values_bounded[OF counted_paths_le] by blast
  have c: "sorted ?vs"
    unfolding a using s b by (simp add: sorted_append)
  have d: "\<forall>v \<in> set ?vs. v \<le> 50"
    unfolding a using b by simp
  have bars: "concat (map bar_values (map progress_updated vs)) = vs" for vs
    by (induction vs) simp_all
  have e: "concat (map bar_values
           (emitted (run H fs progress_percent True walk
                       \<lparr>stop_at = None, flag_reads = 0, emitted = []\<rparr>))) =
           ?vs @ [100]"
    unfolding a using bars[of "?p @ [50]"]
    by (simp add: run_existing_directory w display_duplicates_def)
  have f: "concat (map bar_values
           (emitted (run H fs progress_percent False walk
                       \<lparr>stop_at = None, flag_reads = 0, emitted = []\<rparr>))) =
           [100]"
    by (simp add: run_missing_directory display_duplicates_def)
  from a c d e f show ?thesis
    by (intro conjI)
qed

theorem scan_reports_0_to_50_witness:
  "snd (duplicate_file_finder hex_of_bytes fs_reports progress_percent walk_reports
          (Some record_progress) []) = [0, 25, 50, 50] \<and>
   sorted [0, 25, 50, 50 :: nat] \<and>
   concat (map bar_values
     (emitted (run hex_of_bytes fs_reports progress_percent True walk_reports
                 \<lparr>stop_at = None, flag_reads = 0, emitted = []\<rparr>))) = [0, 25, 50, 50, 100]"
proof -
  have p: "phase1_values progress_percent (length (walk_paths walk_reports))
             (length (counted_paths walk_reports)) = [25, 50]"
    by (simp add: phase1_values_def counted_paths_def has_nul_def walk_paths_def walk_reports_def
        os_path_join_def progress_percent_Suc_0_2 progress_percent_2_2 upt_rec
        numeral_2_eq_2[symmetric])
  from scan_reports_0_to_50[of hex_of_bytes fs_reports walk_reports]
  show ?thesis
    unfolding p by simp
qed

end
